theory Spec2Isabelle
  imports Complex_Main "HOL-Library.Char_ord" "HOL-Library.List_Lexorder"
    "HOL-Library.Product_Lexorder" "HOL-Library.Multiset"
begin

section \<open>The word-ladder engine of \<^verbatim>\<open>word_ladder_game.py\<close>\<close>

text \<open>
  A shallow embedding of the class \<^verbatim>\<open>WordLadderGame\<close>. Python strings are HOL
  strings (the corpus holds ASCII lowercase words only), unbounded Python integers are
  \<open>int\<close> or \<open>nat\<close>, the clock and the float arithmetic of the scoring are real
  numbers, and every exception the code can raise is a value of \<open>exn\<close>.
\<close>

subsection \<open>Strings, numbers and Python sets\<close>

text \<open>\<^verbatim>\<open>str.lower()\<close> on ASCII: the letters A..Z move to a..z, every other
  character stays.\<close>

definition lower_char :: "char \<Rightarrow> char" where
  "lower_char c =
     (let n = (of_char c :: nat) in if 65 \<le> n \<and> n \<le> 90 then char_of (n + 32) else c)"

definition lower :: "string \<Rightarrow> string" where
  "lower w = map lower_char w"

definition ascii_lowercase :: string where
  "ascii_lowercase = ''abcdefghijklmnopqrstuvwxyz''"

text \<open>A Python number that may be \<^verbatim>\<open>float('inf')\<close>: the heuristic, the time
  limit and the hint budget. The order is the one Python compares them by.\<close>

datatype pynum = Fin int | Inf

instantiation pynum :: linorder
begin

fun less_eq_pynum :: "pynum \<Rightarrow> pynum \<Rightarrow> bool" where
  "less_eq_pynum (Fin a) (Fin b) = (a \<le> b)"
| "less_eq_pynum (Fin a) Inf = True"
| "less_eq_pynum Inf (Fin b) = False"
| "less_eq_pynum Inf Inf = True"

definition less_pynum :: "pynum \<Rightarrow> pynum \<Rightarrow> bool" where
  "less_pynum x y = (x \<le> y \<and> \<not> y \<le> x)"

instance
proof
  fix x y z :: pynum
  show "(x < y) = (x \<le> y \<and> \<not> y \<le> x)"
    by (simp add: less_pynum_def)
  show "x \<le> x"
    by (cases x) simp_all
  show "x \<le> y \<Longrightarrow> y \<le> z \<Longrightarrow> x \<le> z"
    by (cases x; cases y; cases z) simp_all
  show "x \<le> y \<Longrightarrow> y \<le> x \<Longrightarrow> x = y"
    by (cases x; cases y) simp_all
  show "x \<le> y \<or> y \<le> x"
    by (cases x; cases y) auto
qed

end

text \<open>\<^verbatim>\<open>n + x\<close> for an integer \<open>n\<close> and a number \<open>x\<close> that may be infinite.\<close>

fun pynum_add :: "int \<Rightarrow> pynum \<Rightarrow> pynum" where
  "pynum_add n (Fin k) = Fin (n + k)"
| "pynum_add n Inf = Inf"

text \<open>
  A Python set that the code iterates over is the list of its elements, without
  duplicates. The order in which \<^verbatim>\<open>for x in s\<close> visits them is not fixed by the
  language and may differ from one set to the next; it is a parameter \<open>ord\<close> of the
  model that gives every set a rank of its own on the elements: \<open>iter ord s\<close> visits
  \<open>s\<close> by increasing \<open>ord s\<close>. Every choice of one visiting order per set is of
  this form (\<open>iter_any_order\<close> below).
\<close>

type_synonym 'a pyset = "'a list"

definition set_add :: "'a \<Rightarrow> 'a pyset \<Rightarrow> 'a pyset" where
  "set_add x s = (if x \<in> set s then s else s @ [x])"

definition iter :: "('a list \<Rightarrow> 'a \<Rightarrow> nat) \<Rightarrow> 'a pyset \<Rightarrow> 'a list" where
  "iter ord s = sort_key (ord s) s"

text \<open>\<^verbatim>\<open>heapq\<close>: the heap is the bag of its entries; \<^verbatim>\<open>heappop\<close> removes the
  least entry (entries are tuples, compared lexicographically).\<close>

definition heappush :: "'a list \<Rightarrow> 'a \<Rightarrow> 'a list" where
  "heappush h e = e # h"

definition heappop :: "('a::linorder) list \<Rightarrow> 'a \<times> 'a list" where
  "heappop h = (Min (set h), remove1 (Min (set h)) h)"

subsection \<open>The game object\<close>

datatype difficulty = Beginner | Advanced | Challenge

record settings =
  word_length_range :: "nat \<times> nat"
  s_banned_words :: "string set"
  s_time_limit :: pynum
  hint_limit :: int
  s_base_score :: int
  s_optimal_path_bonus :: int
  s_time_factor :: int
  s_move_factor :: int
  s_hint_factor :: int

fun DIFFICULTY_SETTINGS :: "difficulty \<Rightarrow> settings" where
  "DIFFICULTY_SETTINGS Beginner =
     \<lparr>word_length_range = (3, 4), s_banned_words = {}, s_time_limit = Inf, hint_limit = 5,
      s_base_score = 1000, s_optimal_path_bonus = 300, s_time_factor = 2,
      s_move_factor = 25, s_hint_factor = 50\<rparr>"
| "DIFFICULTY_SETTINGS Advanced =
     \<lparr>word_length_range = (5, 6), s_banned_words = {}, s_time_limit = Fin 300, hint_limit = 3,
      s_base_score = 2000, s_optimal_path_bonus = 500, s_time_factor = 5,
      s_move_factor = 50, s_hint_factor = 150\<rparr>"
| "DIFFICULTY_SETTINGS Challenge =
     \<lparr>word_length_range = (6, 8), s_banned_words = {}, s_time_limit = Fin 180, hint_limit = 1,
      s_base_score = 3000, s_optimal_path_bonus = 1000, s_time_factor = 10,
      s_move_factor = 100, s_hint_factor = 300\<rparr>"

record game =
  word_set :: "string pyset"
  graph :: "string set \<times> string set set"
  current_word :: string
  target_word :: string
  path_history :: "string list"
  start_time :: "real option"
  score :: int
  difficulty :: difficulty
  hints_remaining :: pynum
  time_limit :: pynum
  banned_words :: "string set"
  base_score :: int
  hints_used :: nat
  optimal_path_bonus :: "int option"
  time_factor :: "int option"
  move_factor :: "int option"
  hint_factor :: "int option"

text \<open>\<^verbatim>\<open>__init__\<close>: the corpus keeps the words that are alphabetic and written
  in a..z only (\<^verbatim>\<open>isalpha\<close> is false on the empty string). The four scoring
  attributes do not exist before \<^verbatim>\<open>setup_difficulty\<close>.\<close>

definition init :: "string list \<Rightarrow> game" where
  "init corpus =
     \<lparr>word_set = fold (\<lambda>word s.
          if word \<noteq> [] \<and> (\<forall>c \<in> set word. c \<in> set ascii_lowercase)
          then set_add (lower word) s else s) corpus [],
      graph = ({}, {}),
      current_word = [], target_word = [], path_history = [], start_time = None,
      score = 0, difficulty = Beginner, hints_remaining = Inf, time_limit = Inf,
      banned_words = {}, base_score = 1000, hints_used = 0,
      optimal_path_bonus = None, time_factor = None, move_factor = None,
      hint_factor = None\<rparr>"

definition is_valid_word :: "game \<Rightarrow> string \<Rightarrow> bool" where
  "is_valid_word g word =
     (let word = lower word
      in word \<in> set (word_set g) \<and> word \<notin> banned_words g)"

definition get_neighbors :: "game \<Rightarrow> string \<Rightarrow> string pyset" where
  "get_neighbors g word =
     fold (\<lambda>i neighbors.
        fold (\<lambda>c neighbors.
           let new_word = take i word @ [c] @ drop (i + 1) word
           in if new_word \<noteq> word \<and> is_valid_word g new_word \<and> new_word \<notin> banned_words g
              then set_add new_word neighbors else neighbors)
          ascii_lowercase neighbors)
       [0..<length word] []"

text \<open>\<^verbatim>\<open>ord(c.lower()) - ord('a') + 1\<close>, the summand of the heuristic.\<close>

definition letter_value :: "char \<Rightarrow> int" where
  "letter_value c = int (of_char (lower_char c)) - int (of_char CHR ''a'') + 1"

definition heuristic :: "string \<Rightarrow> string \<Rightarrow> pynum" where
  "heuristic current target =
     (if length current \<noteq> length target then Inf
      else Fin (sum_list (map letter_value current)))"

subsection \<open>The three searches\<close>

text \<open>
  Each search keeps a heap of tuples and pops the least one. The \<^verbatim>\<open>while\<close> loop
  is a recursive function of the frontier and the visited table; the \<^verbatim>\<open>for\<close>
  loop over the neighbours is a fold over the neighbour set in iteration order.
\<close>

type_synonym astar_entry = "pynum \<times> nat \<times> string \<times> string list"
type_synonym greedy_entry = "pynum \<times> string \<times> string list"
type_synonym ucs_entry = "nat \<times> string \<times> string list"

definition a_star_visit ::
  "string \<Rightarrow> nat \<Rightarrow> string list \<Rightarrow> string \<Rightarrow> astar_entry list \<times> (string \<rightharpoonup> nat)
     \<Rightarrow> astar_entry list \<times> (string \<rightharpoonup> nat)" where
  "a_star_visit target cost path neighbor = (\<lambda>(frontier, visited).
     let new_cost = cost + 1
     in if (case visited neighbor of None \<Rightarrow> True | Some c \<Rightarrow> new_cost < c)
        then let priority = pynum_add (int new_cost) (heuristic neighbor target)
             in (heappush frontier (priority, new_cost, neighbor, path @ [neighbor]),
                 visited(neighbor \<mapsto> new_cost))
        else (frontier, visited))"

function a_star_loop ::
  "(string list \<Rightarrow> string \<Rightarrow> nat) \<Rightarrow> game \<Rightarrow> string \<Rightarrow> astar_entry list \<Rightarrow> (string \<rightharpoonup> nat)
     \<Rightarrow> string list option" where
  "a_star_loop ord g target frontier visited =
     (if frontier = [] then None
      else let (entry, rest) = heappop frontier; (priority, cost, current, path) = entry
           in if current = target then Some path
              else let (frontier', visited') =
                         fold (a_star_visit target cost path)
                           (iter ord (get_neighbors g current)) (rest, visited)
                   in a_star_loop ord g target frontier' visited')"
  by pat_completeness auto

definition greedy_visit ::
  "string \<Rightarrow> string list \<Rightarrow> string \<Rightarrow> greedy_entry list \<times> string set
     \<Rightarrow> greedy_entry list \<times> string set" where
  "greedy_visit target path neighbor = (\<lambda>(frontier, visited).
     if neighbor \<notin> visited
     then let priority = heuristic neighbor target
          in (heappush frontier (priority, neighbor, path @ [neighbor]),
              insert neighbor visited)
     else (frontier, visited))"

function greedy_loop ::
  "(string list \<Rightarrow> string \<Rightarrow> nat) \<Rightarrow> game \<Rightarrow> string \<Rightarrow> greedy_entry list \<Rightarrow> string set
     \<Rightarrow> string list option" where
  "greedy_loop ord g target frontier visited =
     (if frontier = [] then None
      else let (entry, rest) = heappop frontier; (priority, current, path) = entry
           in if current = target then Some path
              else let (frontier', visited') =
                         fold (greedy_visit target path)
                           (iter ord (get_neighbors g current)) (rest, visited)
                   in greedy_loop ord g target frontier' visited')"
  by pat_completeness auto

definition ucs_visit ::
  "nat \<Rightarrow> string list \<Rightarrow> string \<Rightarrow> ucs_entry list \<times> (string \<rightharpoonup> nat)
     \<Rightarrow> ucs_entry list \<times> (string \<rightharpoonup> nat)" where
  "ucs_visit cost path neighbor = (\<lambda>(frontier, visited).
     let new_cost = cost + 1
     in if (case visited neighbor of None \<Rightarrow> True | Some c \<Rightarrow> new_cost < c)
        then (heappush frontier (new_cost, neighbor, path @ [neighbor]),
              visited(neighbor \<mapsto> new_cost))
        else (frontier, visited))"

function ucs_loop ::
  "(string list \<Rightarrow> string \<Rightarrow> nat) \<Rightarrow> game \<Rightarrow> string \<Rightarrow> ucs_entry list \<Rightarrow> (string \<rightharpoonup> nat)
     \<Rightarrow> string list option" where
  "ucs_loop ord g target frontier visited =
     (if frontier = [] then None
      else let (entry, rest) = heappop frontier; (cost, current, path) = entry
           in if current = target then Some path
              else let (frontier', visited') =
                         fold (ucs_visit cost path) (iter ord (get_neighbors g current))
                           (rest, visited)
                   in ucs_loop ord g target frontier' visited')"
  by pat_completeness auto

subsection \<open>Basic facts: words, neighbours, heaps\<close>

lemma length_lower [simp]: "length (lower w) = length w"
  by (simp add: lower_def)

lemma is_valid_word_iff:
  "is_valid_word g w \<longleftrightarrow> lower w \<in> set (word_set g) \<and> lower w \<notin> banned_words g"
  by (simp add: is_valid_word_def Let_def)

lemma set_set_add [simp]: "set (set_add x s) = insert x (set s)"
  by (auto simp: set_add_def)

lemma distinct_set_add [simp]: "distinct (set_add x s) = distinct s"
  by (auto simp: set_add_def)

lemma set_fold_cond_add:
  "set (fold (\<lambda>x s. if P x then set_add (f x) s else s) xs s0) =
     set s0 \<union> {f x | x. x \<in> set xs \<and> P x}"
  by (induction xs arbitrary: s0) auto

lemma distinct_fold_cond_add:
  "distinct s0 \<Longrightarrow> distinct (fold (\<lambda>x s. if P x then set_add (f x) s else s) xs s0)"
  by (induction xs arbitrary: s0) auto

lemma set_fold_fold_cond_add:
  "set (fold (\<lambda>i s. fold (\<lambda>c s. if P i c then set_add (f i c) s else s) cs s) is s0) =
     set s0 \<union> {f i c | i c. i \<in> set is \<and> c \<in> set cs \<and> P i c}"
proof (induction "is" arbitrary: s0)
  case Nil
  then show ?case by simp
next
  case (Cons i "is")
  show ?case
    by (simp add: Cons.IH set_fold_cond_add) blast
qed

lemma distinct_fold_fold_cond_add:
  "distinct s0 \<Longrightarrow>
   distinct (fold (\<lambda>i s. fold (\<lambda>c s. if P i c then set_add (f i c) s else s) cs s) is s0)"
  by (induction "is" arbitrary: s0) (auto simp: distinct_fold_cond_add)

lemma set_get_neighbors:
  "set (get_neighbors g w) =
     {n. \<exists>i c. i < length w \<and> c \<in> set ascii_lowercase \<and> n = take i w @ [c] @ drop (i + 1) w
        \<and> n \<noteq> w \<and> is_valid_word g n \<and> n \<notin> banned_words g}"
  unfolding get_neighbors_def Let_def
  by (subst set_fold_fold_cond_add) auto

lemma distinct_get_neighbors: "distinct (get_neighbors g w)"
  unfolding get_neighbors_def Let_def
  by (rule distinct_fold_fold_cond_add) simp

lemma get_neighbors_valid: "n \<in> set (get_neighbors g w) \<Longrightarrow> is_valid_word g n"
  by (auto simp: set_get_neighbors)

lemma get_neighbors_length: "n \<in> set (get_neighbors g w) \<Longrightarrow> length n = length w"
  by (auto simp: set_get_neighbors)

lemma set_iter [simp]: "set (iter ord s) = set s"
  by (simp add: iter_def)

lemma mset_iter [simp]: "mset (iter ord s) = mset s"
  by (simp add: iter_def)

lemma heappop_length:
  "h \<noteq> [] \<Longrightarrow> heappop h = (e, rest) \<Longrightarrow> length rest < length h"
  by (auto simp: heappop_def length_remove1 intro!: diff_less)

subsection \<open>Termination of the searches\<close>

text \<open>
  Every word a search meets is a valid word, and there are finitely many of them. A
  push either marks a new word or lowers the recorded cost of a marked one; an
  iteration without a push shortens the frontier.
\<close>

definition unseen :: "game \<Rightarrow> (string \<rightharpoonup> nat) \<Rightarrow> nat" where
  "unseen g visited = card ({w. is_valid_word g w} - dom visited)"

definition cost_sum :: "game \<Rightarrow> (string \<rightharpoonup> nat) \<Rightarrow> nat" where
  "cost_sum g visited = (\<Sum>w \<in> {w. is_valid_word g w} \<inter> dom visited. the (visited w))"

definition vis_less :: "game \<Rightarrow> ((string \<rightharpoonup> nat) \<times> (string \<rightharpoonup> nat)) set" where
  "vis_less g = inv_image (less_than <*lex*> less_than) (\<lambda>v. (unseen g v, cost_sum g v))"

definition search_order ::
  "('a \<Rightarrow> game) \<Rightarrow> ('a \<Rightarrow> (string \<rightharpoonup> nat)) \<Rightarrow> ('a \<Rightarrow> nat) \<Rightarrow> ('a \<times> 'a) set" where
  "search_order gm vis len =
     inv_image (less_than <*lex*> less_than <*lex*> less_than)
       (\<lambda>s. (unseen (gm s) (vis s), cost_sum (gm s) (vis s), len s))"

definition set_as_map :: "string set \<Rightarrow> (string \<rightharpoonup> nat)" where
  "set_as_map S = (\<lambda>w. if w \<in> S then Some 0 else None)"

lemma finite_valid_words: "finite {w. is_valid_word g w}"
proof -
  define N where "N = Max (insert 0 (length ` set (word_set g)))"
  have "{w. is_valid_word g w} \<subseteq> {w. set w \<subseteq> UNIV \<and> length w \<le> N}"
  proof
    fix w assume "w \<in> {w. is_valid_word g w}"
    then have "lower w \<in> set (word_set g)"
      by (simp add: is_valid_word_iff)
    then have "length (lower w) \<in> insert 0 (length ` set (word_set g))"
      by blast
    then have "length (lower w) \<le> N"
      unfolding N_def by (intro Max_ge) auto
    then show "w \<in> {w. set w \<subseteq> UNIV \<and> length w \<le> N}"
      by simp
  qed
  moreover have "finite {w :: string. set w \<subseteq> UNIV \<and> length w \<le> N}"
    by (rule finite_lists_length_le) simp
  ultimately show ?thesis
    by (rule finite_subset)
qed

lemma vis_less_trans: "(a, b) \<in> vis_less g \<Longrightarrow> (b, c) \<in> vis_less g \<Longrightarrow> (a, c) \<in> vis_less g"
  unfolding vis_less_def by (auto simp: inv_image_def)

lemma vis_less_update:
  assumes n: "is_valid_word g n"
    and c: "case v n of None \<Rightarrow> True | Some c' \<Rightarrow> c < c'"
  shows "(v(n \<mapsto> c), v) \<in> vis_less g"
proof (cases "v n")
  case None
  let ?V = "{w. is_valid_word g w}"
  have "?V - dom (v(n \<mapsto> c)) = (?V - dom v) - {n}"
    by auto
  moreover have "n \<in> ?V - dom v"
    using n None by auto
  moreover have "finite (?V - dom v)"
    using finite_valid_words by simp
  ultimately have "unseen g (v(n \<mapsto> c)) < unseen g v"
    unfolding unseen_def by (metis card_Diff1_less)
  then show ?thesis
    by (simp add: vis_less_def)
next
  case (Some c')
  let ?V = "{w. is_valid_word g w}"
  have lt: "c < c'"
    using c Some by simp
  have dom_eq: "dom (v(n \<mapsto> c)) = dom v"
    using Some by auto
  have fin: "finite (?V \<inter> dom v)"
    using finite_valid_words by simp
  have nin: "n \<in> ?V \<inter> dom v"
    using n Some by auto
  have "cost_sum g (v(n \<mapsto> c)) = (\<Sum>w \<in> ?V \<inter> dom v. the ((v(n \<mapsto> c)) w))"
    unfolding cost_sum_def dom_eq ..
  also have "\<dots> < (\<Sum>w \<in> ?V \<inter> dom v. the (v w))"
  proof (rule sum_strict_mono_ex1[OF fin])
    show "\<forall>w \<in> ?V \<inter> dom v. the ((v(n \<mapsto> c)) w) \<le> the (v w)"
      using lt Some by auto
    show "\<exists>w \<in> ?V \<inter> dom v. the ((v(n \<mapsto> c)) w) < the (v w)"
      using lt Some nin by (intro bexI[of _ n]) auto
  qed
  finally have "cost_sum g (v(n \<mapsto> c)) < cost_sum g v"
    by (simp add: cost_sum_def)
  moreover have "unseen g (v(n \<mapsto> c)) = unseen g v"
    unfolding unseen_def dom_eq ..
  ultimately show ?thesis
    by (simp add: vis_less_def)
qed

lemma wf_search_order: "wf (search_order gm vis len)"
  unfolding search_order_def by (intro wf_inv_image wf_lex_prod wf_less_than)

lemma search_orderI:
  assumes "gm s' = gm s"
    and "(len s' < len s \<and> vis s' = vis s) \<or> (vis s', vis s) \<in> vis_less (gm s)"
  shows "(s', s) \<in> search_order gm vis len"
  using assms by (auto simp: search_order_def vis_less_def)

lemma a_star_visit_measure:
  assumes "is_valid_word g n" and "a_star_visit target cost path n (fr, vis) = (fr', vis')"
  shows "(fr' = fr \<and> vis' = vis) \<or> (vis', vis) \<in> vis_less g"
  using assms by (auto simp: a_star_visit_def Let_def vis_less_update split: if_splits)

lemma a_star_fold_measure:
  assumes "\<forall>n \<in> set ns. is_valid_word g n"
    and "fold (a_star_visit target cost path) ns (fr, vis) = (fr', vis')"
  shows "(fr' = fr \<and> vis' = vis) \<or> (vis', vis) \<in> vis_less g"
  using assms
proof (induction ns arbitrary: fr vis)
  case Nil
  then show ?case by simp
next
  case (Cons n ns)
  obtain fr1 vis1 where step: "a_star_visit target cost path n (fr, vis) = (fr1, vis1)"
    by (cases "a_star_visit target cost path n (fr, vis)")
  have 1: "(fr1 = fr \<and> vis1 = vis) \<or> (vis1, vis) \<in> vis_less g"
    using a_star_visit_measure[OF _ step] Cons.prems(1) by simp
  have 2: "(fr' = fr1 \<and> vis' = vis1) \<or> (vis', vis1) \<in> vis_less g"
    using Cons.IH[of fr1 vis1] Cons.prems step by simp
  from 1 2 show ?case
    using vis_less_trans by blast
qed

lemma a_star_step_decreases:
  assumes "frontier \<noteq> []"
    and "heappop frontier = ((priority, cost, current, path), rest)"
    and "fold (a_star_visit target cost path) (iter ord (get_neighbors g current))
           (rest, visited) = (fr', vis')"
  shows "((ord, g, target, fr', vis'), (ord, g, target, frontier, visited))
          \<in> search_order (\<lambda>(ord, g, target, frontier, visited). g)
               (\<lambda>(ord, g, target, frontier, visited). visited)
               (\<lambda>(ord, g, target, frontier, visited). length frontier)"
proof -
  have valid: "\<forall>n \<in> set (iter ord (get_neighbors g current)). is_valid_word g n"
    by (simp add: get_neighbors_valid)
  from a_star_fold_measure[OF valid assms(3)]
  have "(fr' = rest \<and> vis' = visited) \<or> (vis', visited) \<in> vis_less g" .
  moreover have "length rest < length frontier"
    using assms(1,2) by (rule heappop_length)
  ultimately show ?thesis
    by (intro search_orderI) auto
qed

termination a_star_loop
  apply (relation "search_order (\<lambda>(ord, g, target, frontier, visited). g)
               (\<lambda>(ord, g, target, frontier, visited). visited)
               (\<lambda>(ord, g, target, frontier, visited). length frontier)")
  subgoal by (rule wf_search_order)
  subgoal for ord g target frontier visited x entry rest xb priority ya cost yb current path
    by (rule a_star_step_decreases[where priority = priority and cost = cost
          and current = current and path = path and rest = rest]) auto
  done

lemma ucs_visit_measure:
  assumes "is_valid_word g n" and "ucs_visit cost path n (fr, vis) = (fr', vis')"
  shows "(fr' = fr \<and> vis' = vis) \<or> (vis', vis) \<in> vis_less g"
  using assms by (auto simp: ucs_visit_def Let_def vis_less_update split: if_splits)

lemma ucs_fold_measure:
  assumes "\<forall>n \<in> set ns. is_valid_word g n"
    and "fold (ucs_visit cost path) ns (fr, vis) = (fr', vis')"
  shows "(fr' = fr \<and> vis' = vis) \<or> (vis', vis) \<in> vis_less g"
  using assms
proof (induction ns arbitrary: fr vis)
  case Nil
  then show ?case by simp
next
  case (Cons n ns)
  obtain fr1 vis1 where step: "ucs_visit cost path n (fr, vis) = (fr1, vis1)"
    by (cases "ucs_visit cost path n (fr, vis)")
  have 1: "(fr1 = fr \<and> vis1 = vis) \<or> (vis1, vis) \<in> vis_less g"
    using ucs_visit_measure[OF _ step] Cons.prems(1) by simp
  have 2: "(fr' = fr1 \<and> vis' = vis1) \<or> (vis', vis1) \<in> vis_less g"
    using Cons.IH[of fr1 vis1] Cons.prems step by simp
  from 1 2 show ?case
    using vis_less_trans by blast
qed

lemma ucs_step_decreases:
  assumes "frontier \<noteq> []"
    and "heappop frontier = ((cost, current, path), rest)"
    and "fold (ucs_visit cost path) (iter ord (get_neighbors g current)) (rest, visited)
          = (fr', vis')"
  shows "((ord, g, target, fr', vis'), (ord, g, target, frontier, visited))
          \<in> search_order (\<lambda>(ord, g, target, frontier, visited). g)
               (\<lambda>(ord, g, target, frontier, visited). visited)
               (\<lambda>(ord, g, target, frontier, visited). length frontier)"
proof -
  have valid: "\<forall>n \<in> set (iter ord (get_neighbors g current)). is_valid_word g n"
    by (simp add: get_neighbors_valid)
  from ucs_fold_measure[OF valid assms(3)]
  have "(fr' = rest \<and> vis' = visited) \<or> (vis', visited) \<in> vis_less g" .
  moreover have "length rest < length frontier"
    using assms(1,2) by (rule heappop_length)
  ultimately show ?thesis
    by (intro search_orderI) auto
qed

termination ucs_loop
  apply (relation "search_order (\<lambda>(ord, g, target, frontier, visited). g)
               (\<lambda>(ord, g, target, frontier, visited). visited)
               (\<lambda>(ord, g, target, frontier, visited). length frontier)")
  subgoal by (rule wf_search_order)
  subgoal for ord g target frontier visited x entry rest xb cost ya current path
    by (rule ucs_step_decreases[where cost = cost and current = current and path = path
          and rest = rest]) auto
  done

lemma set_as_map_insert:
  "n \<notin> S \<Longrightarrow> set_as_map (insert n S) = (set_as_map S)(n \<mapsto> 0)"
  by (auto simp: set_as_map_def)

lemma set_as_map_inj: "set_as_map S = set_as_map T \<Longrightarrow> S = T"
  by (auto simp: set_as_map_def fun_eq_iff split: if_splits)

lemma greedy_visit_measure:
  assumes "is_valid_word g n" and "greedy_visit target path n (fr, vis) = (fr', vis')"
  shows "(fr' = fr \<and> vis' = vis) \<or> (set_as_map vis', set_as_map vis) \<in> vis_less g"
proof (cases "n \<in> vis")
  case True
  then show ?thesis
    using assms(2) by (simp add: greedy_visit_def)
next
  case False
  then have "vis' = insert n vis"
    using assms(2) by (auto simp: greedy_visit_def Let_def)
  moreover have "((set_as_map vis)(n \<mapsto> 0), set_as_map vis) \<in> vis_less g"
    using assms(1) False by (intro vis_less_update) (simp_all add: set_as_map_def)
  ultimately show ?thesis
    using False by (simp add: set_as_map_insert)
qed

lemma greedy_fold_measure:
  assumes "\<forall>n \<in> set ns. is_valid_word g n"
    and "fold (greedy_visit target path) ns (fr, vis) = (fr', vis')"
  shows "(fr' = fr \<and> vis' = vis) \<or> (set_as_map vis', set_as_map vis) \<in> vis_less g"
  using assms
proof (induction ns arbitrary: fr vis)
  case Nil
  then show ?case by simp
next
  case (Cons n ns)
  obtain fr1 vis1 where step: "greedy_visit target path n (fr, vis) = (fr1, vis1)"
    by (cases "greedy_visit target path n (fr, vis)")
  have 1: "(fr1 = fr \<and> vis1 = vis) \<or> (set_as_map vis1, set_as_map vis) \<in> vis_less g"
    using greedy_visit_measure[OF _ step] Cons.prems(1) by simp
  have 2: "(fr' = fr1 \<and> vis' = vis1) \<or> (set_as_map vis', set_as_map vis1) \<in> vis_less g"
    using Cons.IH[of fr1 vis1] Cons.prems step by simp
  from 1 2 show ?case
    using vis_less_trans by blast
qed

lemma greedy_step_decreases:
  assumes "frontier \<noteq> []"
    and "heappop frontier = ((priority, current, path), rest)"
    and "fold (greedy_visit target path) (iter ord (get_neighbors g current)) (rest, visited)
          = (fr', vis')"
  shows "((ord, g, target, fr', vis'), (ord, g, target, frontier, visited))
          \<in> search_order (\<lambda>(ord, g, target, frontier, visited). g)
               (\<lambda>(ord, g, target, frontier, visited). set_as_map visited)
               (\<lambda>(ord, g, target, frontier, visited). length frontier)"
proof -
  have valid: "\<forall>n \<in> set (iter ord (get_neighbors g current)). is_valid_word g n"
    by (simp add: get_neighbors_valid)
  from greedy_fold_measure[OF valid assms(3)]
  have "(fr' = rest \<and> vis' = visited)
      \<or> (set_as_map vis', set_as_map visited) \<in> vis_less g" .
  moreover have "length rest < length frontier"
    using assms(1,2) by (rule heappop_length)
  ultimately show ?thesis
    by (intro search_orderI) auto
qed

termination greedy_loop
  apply (relation "search_order (\<lambda>(ord, g, target, frontier, visited). g)
               (\<lambda>(ord, g, target, frontier, visited). set_as_map visited)
               (\<lambda>(ord, g, target, frontier, visited). length frontier)")
  subgoal by (rule wf_search_order)
  subgoal for ord g target frontier visited x entry rest xb priority ya current path
    by (rule greedy_step_decreases[where priority = priority and current = current
          and path = path and rest = rest]) auto
  done

declare a_star_loop.simps [simp del] greedy_loop.simps [simp del] ucs_loop.simps [simp del]

definition a_star_search :: "(string list \<Rightarrow> string \<Rightarrow> nat) \<Rightarrow> game \<Rightarrow> string \<Rightarrow> string \<Rightarrow> string list option" where
  "a_star_search ord g start target =
     (if \<not> (is_valid_word g start \<and> is_valid_word g target) then None
      else a_star_loop ord g target [(heuristic start target, 0, start, [start])]
             [start \<mapsto> 0])"

definition greedy_best_first_search ::
  "(string list \<Rightarrow> string \<Rightarrow> nat) \<Rightarrow> game \<Rightarrow> string \<Rightarrow> string \<Rightarrow> string list option" where
  "greedy_best_first_search ord g start target =
     (if \<not> (is_valid_word g start \<and> is_valid_word g target) then None
      else greedy_loop ord g target [(heuristic start target, start, [start])] {start})"

definition uniform_cost_search ::
  "(string list \<Rightarrow> string \<Rightarrow> nat) \<Rightarrow> game \<Rightarrow> string \<Rightarrow> string \<Rightarrow> string list option" where
  "uniform_cost_search ord g start target =
     (if \<not> (is_valid_word g start \<and> is_valid_word g target) then None
      else ucs_loop ord g target [(0, start, [start])] [start \<mapsto> 0])"

subsection \<open>Words and the example corpus\<close>

text \<open>A word of the data model is a sequence of lowercase letters; these are the
  strings \<^verbatim>\<open>__init__\<close> admits to the corpus.\<close>

definition is_word :: "string \<Rightarrow> bool" where
  "is_word w = (\<forall>c \<in> set w. c \<in> set ascii_lowercase)"

text \<open>The alphabetic position of a letter, a = 1 to z = 26, in either case: one more
  than the number of letters before it in the alphabet.\<close>

definition alpha_pos :: "char \<Rightarrow> int" where
  "alpha_pos c = int (length (takeWhile (\<lambda>x. x \<noteq> lower_char c) ascii_lowercase)) + 1"

definition is_letter :: "char \<Rightarrow> bool" where
  "is_letter c = (lower_char c \<in> set ascii_lowercase)"

text \<open>The corpus of the end-to-end example: cat, cot, cog, dog, dot, cag.\<close>

definition demo :: game where
  "demo = init [''cat'', ''cot'', ''cog'', ''dog'', ''dot'', ''cag'']"

lemma lower_char_lowercase: "c \<in> set ascii_lowercase \<Longrightarrow> lower_char c = c"
  by (auto simp: ascii_lowercase_def lower_char_def)

lemma lower_is_word: "is_word w \<Longrightarrow> lower w = w"
  by (simp add: is_word_def lower_def lower_char_lowercase map_idI)

lemma init_corpus_words: "w \<in> set (word_set (init corpus)) \<Longrightarrow> is_word w \<and> w \<noteq> []"
proof -
  assume "w \<in> set (word_set (init corpus))"
  then obtain x where x: "x \<in> set corpus" "x \<noteq> []" "\<forall>c \<in> set x. c \<in> set ascii_lowercase"
    and w: "w = lower x"
    by (auto simp: init_def set_fold_cond_add)
  have "lower x = x"
    using x(3) by (simp add: lower_is_word is_word_def)
  with x w show ?thesis
    by (simp add: is_word_def)
qed

lemma demo_cat: "get_neighbors demo ''cat'' = [''cot'', ''cag'']"
  unfolding demo_def by code_simp

section \<open>The heuristic (C8)\<close>

lemma alphabet_positions:
  "\<forall>x \<in> set ascii_lowercase.
     int (of_char x) - int (of_char CHR ''a'') + 1
       = int (length (takeWhile (\<lambda>y. y \<noteq> x) ascii_lowercase)) + 1"
  by (simp add: ascii_lowercase_def)

lemma letter_value_alpha_pos:
  assumes "is_letter c"
  shows "letter_value c = alpha_pos c"
  using assms alphabet_positions
  unfolding alpha_pos_def letter_value_def is_letter_def by blast

text \<open>
  C8, as stated: for every \<open>current\<close> and every \<open>target\<close> the heuristic is the sum of the
  alphabetic positions of the letters of \<open>current\<close>, whatever \<open>target\<close> is. The code
  first compares the two lengths and returns infinity when they differ: for \<open>ab\<close> and
  \<open>abc\<close> the value is not the sum 3, and it is not the value for the target \<open>cd\<close>.
\<close>

theorem heuristic_length_guard:
  "heuristic ''ab'' ''abc'' \<noteq> Fin (\<Sum>c\<leftarrow>''ab''. alpha_pos c)
   \<and> heuristic ''ab'' ''abc'' \<noteq> heuristic ''ab'' ''cd''"
  by (simp add: heuristic_def lower_char_def letter_value_def)

text \<open>
  C8, amended: when the lengths of \<open>current\<close> and \<open>target\<close> differ the heuristic is
  infinity; when they are equal and \<open>current\<close> consists of letters it is the sum of
  the alphabetic positions of the letters of \<open>current\<close>; and the target matters
  through its length only: two targets of the same length give the same value.
\<close>

theorem heuristic_letter_sum:
  "(length current \<noteq> length target \<longrightarrow> heuristic current target = Inf)
   \<and> (length current = length target \<and> (\<forall>c \<in> set current. is_letter c)
        \<longrightarrow> heuristic current target = Fin (\<Sum>c\<leftarrow>current. alpha_pos c))
   \<and> (length target' = length target
        \<longrightarrow> heuristic current target' = heuristic current target)"
proof -
  have "map letter_value current = map alpha_pos current"
    if "\<forall>c \<in> set current. is_letter c"
    using that by (simp add: letter_value_alpha_pos)
  then have "(\<forall>c \<in> set current. is_letter c)
      \<longrightarrow> sum_list (map letter_value current) = sum_list (map alpha_pos current)"
    by (intro impI arg_cong[where f = sum_list])
  then show ?thesis
    unfolding heuristic_def by simp
qed

theorem heuristic_letter_sum_witness:
  "heuristic ''cat'' ''do'' = Inf
   \<and> heuristic ''cat'' ''dog'' = Fin 24
   \<and> heuristic ''cat'' ''cog'' = heuristic ''cat'' ''dog''
   \<and> heuristic ''cat'' ''at'' = heuristic ''cat'' ''do''"
  using heuristic_letter_sum[of "''cat''" "''dog''" "''cog''"]
    heuristic_letter_sum[of "''cat''" "''do''" "''at''"]
  by (simp add: is_letter_def alpha_pos_def ascii_lowercase_def lower_char_def)

section \<open>Symmetry of the neighbour relation (C3)\<close>

lemma subst_back:
  assumes "i < length a"
  shows "take i (take i a @ [c] @ drop (i + 1) a) @ [a ! i]
           @ drop (i + 1) (take i a @ [c] @ drop (i + 1) a) = a"
  using assms by (simp add: min_def id_take_nth_drop[symmetric])

lemma neighbor_back:
  assumes a: "is_word a" "is_valid_word g a" and b: "b \<in> set (get_neighbors g a)"
  shows "a \<in> set (get_neighbors g b)"
proof -
  from b obtain i c where i: "i < length a" and c: "c \<in> set ascii_lowercase"
    and bdef: "b = take i a @ [c] @ drop (i + 1) a" and ne: "b \<noteq> a"
    by (auto simp: set_get_neighbors)
  have len: "length b = length a"
    using i bdef by simp
  have ai: "a ! i \<in> set ascii_lowercase"
    using a(1) i by (simp add: is_word_def)
  have sub: "a = take i b @ [a ! i] @ drop (i + 1) b"
    using subst_back[OF i, of c] bdef by simp
  have nb: "a \<notin> banned_words g"
    using a by (simp add: is_valid_word_iff lower_is_word)
  have "\<exists>j d. j < length b \<and> d \<in> set ascii_lowercase \<and> a = take j b @ [d] @ drop (j + 1) b
        \<and> a \<noteq> b \<and> is_valid_word g a \<and> a \<notin> banned_words g"
    using i len ai sub ne a(2) nb by (intro exI[of _ i] exI[of _ "a ! i"]) simp
  then show ?thesis
    unfolding set_get_neighbors by blast
qed

text \<open>
  C3: for valid, unbanned words \<open>a\<close> and \<open>b\<close> (sequences of lowercase letters that
  \<open>is_valid_word\<close> accepts), \<open>b\<close> is a neighbour of \<open>a\<close> if and only if \<open>a\<close> is a
  neighbour of \<open>b\<close>.
\<close>

theorem get_neighbors_symmetric:
  assumes "is_word a" "is_word b" "is_valid_word g a" "is_valid_word g b"
  shows "b \<in> set (get_neighbors g a) \<longleftrightarrow> a \<in> set (get_neighbors g b)"
  using assms neighbor_back by blast

theorem get_neighbors_symmetric_witness:
  "''cot'' \<in> set (get_neighbors demo ''cat'') \<and> ''cat'' \<in> set (get_neighbors demo ''cot'')"
proof -
  have w: "is_word ''cat''" "is_word ''cot''"
    by (simp_all add: is_word_def ascii_lowercase_def)
  have v: "is_valid_word demo ''cat''" "is_valid_word demo ''cot''"
    unfolding demo_def by code_simp+
  have "''cot'' \<in> set (get_neighbors demo ''cat'')"
    by (simp add: demo_cat)
  then show ?thesis
    using get_neighbors_symmetric[OF w v] by simp
qed

section \<open>Determinism of the searches (C2)\<close>

subsection \<open>Folding a loop body over a set in any order\<close>

lemma heappop_mset:
  assumes "mset h = mset h'" and "heappop h = (e, rest)"
  shows "\<exists>rest'. heappop h' = (e, rest') \<and> mset rest' = mset rest"
proof -
  have "set h = set h'"
    using assms(1) by (rule mset_eq_setD)
  then show ?thesis
    using assms by (auto simp: heappop_def)
qed

lemma fold_abs_cong:
  assumes cong: "\<And>x s s'. ab s = ab s' \<Longrightarrow> ab (f x s) = ab (f x s')"
    and eq: "ab s = ab s'"
  shows "ab (fold f xs s) = ab (fold f xs s')"
  using eq
proof (induction xs arbitrary: s s')
  case Nil
  then show ?case by simp
next
  case (Cons a xs)
  have "ab (f a s) = ab (f a s')"
    using Cons.prems by (rule cong)
  then have "ab (fold f xs (f a s)) = ab (fold f xs (f a s'))"
    by (rule Cons.IH)
  then show ?case by simp
qed

lemma fold_abs_snoc:
  assumes cong: "\<And>x s s'. ab s = ab s' \<Longrightarrow> ab (f x s) = ab (f x s')"
    and comm: "\<And>x y s. ab (f x (f y s)) = ab (f y (f x s))"
  shows "ab (fold f (as @ [x]) s) = ab (fold f (x # as) s)"
proof (induction as arbitrary: s)
  case Nil
  then show ?case by simp
next
  case (Cons a as)
  have "ab (fold f ((a # as) @ [x]) s) = ab (fold f (as @ [x]) (f a s))"
    by simp
  also have "\<dots> = ab (fold f (x # as) (f a s))"
    by (rule Cons.IH)
  also have "\<dots> = ab (fold f as (f x (f a s)))"
    by simp
  also have "\<dots> = ab (fold f as (f a (f x s)))"
    using cong comm[of x a s] by (rule fold_abs_cong[of ab f "f x (f a s)" "f a (f x s)" as])
  finally show ?case by simp
qed

lemma fold_abs_front:
  assumes cong: "\<And>x s s'. ab s = ab s' \<Longrightarrow> ab (f x s) = ab (f x s')"
    and comm: "\<And>x y s. ab (f x (f y s)) = ab (f y (f x s))"
  shows "ab (fold f (as @ x # bs) s) = ab (fold f (x # as @ bs) s)"
proof -
  have "ab (fold f (as @ [x]) s) = ab (fold f (x # as) s)"
    using cong comm by (rule fold_abs_snoc[of ab f as x s])
  with cong have "ab (fold f bs (fold f (as @ [x]) s)) = ab (fold f bs (fold f (x # as) s))"
    by (rule fold_abs_cong[of ab f "fold f (as @ [x]) s" "fold f (x # as) s" bs])
  then show ?thesis by simp
qed

lemma fold_abs_perm:
  assumes cong: "\<And>x s s'. ab s = ab s' \<Longrightarrow> ab (f x s) = ab (f x s')"
    and comm: "\<And>x y s. ab (f x (f y s)) = ab (f y (f x s))"
    and "mset xs = mset ys" and "ab s = ab s'"
  shows "ab (fold f xs s) = ab (fold f ys s')"
  using assms(3,4)
proof (induction xs arbitrary: ys s s')
  case Nil
  then show ?case by simp
next
  case (Cons x xs)
  have "x \<in> set ys"
    using Cons.prems(1) by (metis list.set_intros(1) mset_eq_setD)
  then obtain as bs where ys: "ys = as @ x # bs"
    by (auto dest: split_list)
  have perm: "mset xs = mset (as @ bs)"
    using Cons.prems(1) ys by simp
  have step: "ab (f x s) = ab (f x s')"
    using Cons.prems(2) by (rule cong)
  have "ab (fold f (x # xs) s) = ab (fold f xs (f x s))"
    by simp
  also have "\<dots> = ab (fold f (as @ bs) (f x s'))"
    using perm step by (rule Cons.IH)
  also have "\<dots> = ab (fold f (x # as @ bs) s')"
    by simp
  also have "\<dots> = ab (fold f ys s')"
    unfolding ys using cong comm by (rule fold_abs_front[of ab f as x bs s', symmetric])
  finally show ?case .
qed

subsection \<open>The loop bodies commute\<close>

text \<open>A search state up to the order of the heap's array: the bag of frontier entries
  and the visited table.\<close>

definition bag :: "'a list \<times> 'b \<Rightarrow> 'a multiset \<times> 'b" where
  "bag s = (mset (fst s), snd s)"

lemma bag_eq [simp]: "bag (fr, v) = bag (fr', v') \<longleftrightarrow> mset fr = mset fr' \<and> v = v'"
  by (simp add: bag_def)

lemma ucs_visit_cong:
  assumes "bag s = bag s'"
  shows "bag (ucs_visit cost path n s) = bag (ucs_visit cost path n s')"
proof -
  obtain fr v fr' v' where s: "s = (fr, v)" "s' = (fr', v')"
    by (cases s; cases s') blast
  then show ?thesis
    using assms by (simp add: ucs_visit_def heappush_def Let_def)
qed

lemma ucs_visit_comm:
  "bag (ucs_visit cost path n (ucs_visit cost path m s))
     = bag (ucs_visit cost path m (ucs_visit cost path n s))"
proof (cases "n = m")
  case True
  then show ?thesis by simp
next
  case False
  obtain fr v where s: "s = (fr, v)"
    by (cases s)
  have tw: "v(m \<mapsto> c, n \<mapsto> c) = v(n \<mapsto> c, m \<mapsto> c)" for c
    using False by (simp add: fun_upd_twist)
  show ?thesis
    using False by (simp add: s ucs_visit_def heappush_def Let_def tw)
qed


lemma a_star_visit_cong:
  assumes "bag s = bag s'"
  shows "bag (a_star_visit t cost path n s) = bag (a_star_visit t cost path n s')"
proof -
  obtain fr v fr' v' where s: "s = (fr, v)" "s' = (fr', v')"
    by (cases s; cases s') blast
  then show ?thesis
    using assms by (simp add: a_star_visit_def heappush_def Let_def)
qed

lemma a_star_visit_comm:
  "bag (a_star_visit t cost path n (a_star_visit t cost path m s))
     = bag (a_star_visit t cost path m (a_star_visit t cost path n s))"
proof (cases "n = m")
  case True
  then show ?thesis by simp
next
  case False
  obtain fr v where s: "s = (fr, v)"
    by (cases s)
  have tw: "v(m \<mapsto> c, n \<mapsto> c) = v(n \<mapsto> c, m \<mapsto> c)" for c
    using False by (simp add: fun_upd_twist)
  show ?thesis
    using False by (simp add: s a_star_visit_def heappush_def Let_def tw)
qed

lemma greedy_visit_cong:
  assumes "bag s = bag s'"
  shows "bag (greedy_visit t path n s) = bag (greedy_visit t path n s')"
proof -
  obtain fr v fr' v' where s: "s = (fr, v)" "s' = (fr', v')"
    by (cases s; cases s') blast
  then show ?thesis
    using assms by (simp add: greedy_visit_def heappush_def Let_def)
qed

lemma greedy_visit_comm:
  "bag (greedy_visit t path n (greedy_visit t path m s))
     = bag (greedy_visit t path m (greedy_visit t path n s))"
proof (cases "n = m")
  case True
  then show ?thesis by simp
next
  case False
  obtain fr v where s: "s = (fr, v)"
    by (cases s)
  show ?thesis
    using False by (simp add: s greedy_visit_def heappush_def Let_def insert_commute)
qed

text \<open>The dictionary enters a search through its set of words and the banned set.\<close>

lemma is_valid_word_cong:
  assumes "set (word_set g) = set (word_set g')" and "banned_words g = banned_words g'"
  shows "is_valid_word g w = is_valid_word g' w"
  using assms by (simp add: is_valid_word_iff)

lemma get_neighbors_cong:
  assumes "set (word_set g) = set (word_set g')" and "banned_words g = banned_words g'"
  shows "get_neighbors g w = get_neighbors g' w"
  unfolding get_neighbors_def using assms by (simp add: is_valid_word_cong[OF assms])

subsection \<open>One iteration of each loop, and induction along the loop\<close>

lemma ucs_loop_step:
  assumes "frontier \<noteq> []" and "heappop frontier = ((cost, current, path), rest)"
  shows "ucs_loop ord g target frontier visited =
     (if current = target then Some path
      else ucs_loop ord g target
        (fst (fold (ucs_visit cost path) (iter ord (get_neighbors g current)) (rest, visited)))
        (snd (fold (ucs_visit cost path) (iter ord (get_neighbors g current)) (rest, visited))))"
  using assms by (simp add: ucs_loop.simps[of ord g target frontier visited] split_def Let_def)

lemma ucs_loop_induct [case_names step]:
  assumes "\<And>frontier visited.
     (\<And>cost current path rest.
        frontier \<noteq> [] \<Longrightarrow> heappop frontier = ((cost, current, path), rest) \<Longrightarrow>
        current \<noteq> target \<Longrightarrow>
        P (fst (fold (ucs_visit cost path) (iter ord (get_neighbors g current)) (rest, visited)))
          (snd (fold (ucs_visit cost path) (iter ord (get_neighbors g current)) (rest, visited))))
     \<Longrightarrow> P frontier visited"
  shows "P frontier visited"
proof -
  have "P frontier visited" if "ord' = ord" "g' = g" "target' = target" for ord' g' target'
    using that
  proof (induction ord' g' target' frontier visited rule: ucs_loop.induct)
    case (1 ord' g' target' frontier visited)
    note eqs = "1.prems"
    show ?case
    proof (rule assms)
      fix cost current path rest
      assume a: "frontier \<noteq> []" "heappop frontier = ((cost, current, path), rest)"
        "current \<noteq> target"
      have ne: "current \<noteq> target'"
        using a(3) eqs by simp
      have "P (fst (fold (ucs_visit cost path) (iter ord' (get_neighbors g' current)) (rest, visited)))
          (snd (fold (ucs_visit cost path) (iter ord' (get_neighbors g' current)) (rest, visited)))"
        by (rule "1.IH"[OF a(1) refl a(2)[symmetric] refl refl refl ne refl prod.collapse eqs])
      then show "P (fst (fold (ucs_visit cost path) (iter ord (get_neighbors g current)) (rest, visited)))
          (snd (fold (ucs_visit cost path) (iter ord (get_neighbors g current)) (rest, visited)))"
        unfolding eqs .
    qed
  qed
  then show ?thesis
    by simp
qed

lemma a_star_loop_step:
  assumes "frontier \<noteq> []" and "heappop frontier = ((priority, cost, current, path), rest)"
  shows "a_star_loop ord g target frontier visited =
     (if current = target then Some path
      else a_star_loop ord g target
        (fst (fold (a_star_visit target cost path) (iter ord (get_neighbors g current)) (rest, visited)))
        (snd (fold (a_star_visit target cost path) (iter ord (get_neighbors g current)) (rest, visited))))"
  using assms by (simp add: a_star_loop.simps[of ord g target frontier visited] split_def Let_def)

lemma a_star_loop_induct [case_names step]:
  assumes "\<And>frontier visited.
     (\<And>priority cost current path rest.
        frontier \<noteq> [] \<Longrightarrow> heappop frontier = ((priority, cost, current, path), rest) \<Longrightarrow>
        current \<noteq> target \<Longrightarrow>
        P (fst (fold (a_star_visit target cost path) (iter ord (get_neighbors g current)) (rest, visited)))
          (snd (fold (a_star_visit target cost path) (iter ord (get_neighbors g current)) (rest, visited))))
     \<Longrightarrow> P frontier visited"
  shows "P frontier visited"
proof -
  have "P frontier visited" if "ord' = ord" "g' = g" "target' = target" for ord' g' target'
    using that
  proof (induction ord' g' target' frontier visited rule: a_star_loop.induct)
    case (1 ord' g' target' frontier visited)
    note eqs = "1.prems"
    show ?case
    proof (rule assms)
      fix priority cost current path rest
      assume a: "frontier \<noteq> []" "heappop frontier = ((priority, cost, current, path), rest)"
        "current \<noteq> target"
      have ne: "current \<noteq> target'"
        using a(3) eqs by simp
      have "P (fst (fold (a_star_visit target' cost path) (iter ord' (get_neighbors g' current)) (rest, visited)))
          (snd (fold (a_star_visit target' cost path) (iter ord' (get_neighbors g' current)) (rest, visited)))"
        by (rule "1.IH"[OF a(1) refl a(2)[symmetric] refl refl refl refl ne refl prod.collapse eqs])
      then show "P (fst (fold (a_star_visit target cost path) (iter ord (get_neighbors g current)) (rest, visited)))
          (snd (fold (a_star_visit target cost path) (iter ord (get_neighbors g current)) (rest, visited)))"
        unfolding eqs .
    qed
  qed
  then show ?thesis
    by simp
qed

lemma greedy_loop_step:
  assumes "frontier \<noteq> []" and "heappop frontier = ((priority, current, path), rest)"
  shows "greedy_loop ord g target frontier visited =
     (if current = target then Some path
      else greedy_loop ord g target
        (fst (fold (greedy_visit target path) (iter ord (get_neighbors g current)) (rest, visited)))
        (snd (fold (greedy_visit target path) (iter ord (get_neighbors g current)) (rest, visited))))"
  using assms by (simp add: greedy_loop.simps[of ord g target frontier visited] split_def Let_def)

lemma greedy_loop_induct [case_names step]:
  assumes "\<And>frontier visited.
     (\<And>priority current path rest.
        frontier \<noteq> [] \<Longrightarrow> heappop frontier = ((priority, current, path), rest) \<Longrightarrow>
        current \<noteq> target \<Longrightarrow>
        P (fst (fold (greedy_visit target path) (iter ord (get_neighbors g current)) (rest, visited)))
          (snd (fold (greedy_visit target path) (iter ord (get_neighbors g current)) (rest, visited))))
     \<Longrightarrow> P frontier visited"
  shows "P frontier visited"
proof -
  have "P frontier visited" if "ord' = ord" "g' = g" "target' = target" for ord' g' target'
    using that
  proof (induction ord' g' target' frontier visited rule: greedy_loop.induct)
    case (1 ord' g' target' frontier visited)
    note eqs = "1.prems"
    show ?case
    proof (rule assms)
      fix priority current path rest
      assume a: "frontier \<noteq> []" "heappop frontier = ((priority, current, path), rest)"
        "current \<noteq> target"
      have ne: "current \<noteq> target'"
        using a(3) eqs by simp
      have "P (fst (fold (greedy_visit target' path) (iter ord' (get_neighbors g' current)) (rest, visited)))
          (snd (fold (greedy_visit target' path) (iter ord' (get_neighbors g' current)) (rest, visited)))"
        by (rule "1.IH"[OF a(1) refl a(2)[symmetric] refl refl refl ne refl prod.collapse eqs])
      then show "P (fst (fold (greedy_visit target path) (iter ord (get_neighbors g current)) (rest, visited)))
          (snd (fold (greedy_visit target path) (iter ord (get_neighbors g current)) (rest, visited)))"
        unfolding eqs .
    qed
  qed
  then show ?thesis
    by simp
qed


subsection \<open>The result does not depend on the iteration order\<close>

lemma position_nth:
  assumes "distinct ys" and "i < length ys"
  shows "length (takeWhile (\<lambda>y. y \<noteq> ys ! i) ys) = i"
  using assms
proof (induction ys arbitrary: i)
  case Nil
  then show ?case by simp
next
  case (Cons y ys)
  show ?case
  proof (cases i)
    case 0
    then show ?thesis by simp
  next
    case (Suc j)
    then have "ys ! j \<noteq> y"
      using Cons.prems by auto
    then show ?thesis
      using Suc Cons by simp
  qed
qed

text \<open>Every order in which one set can be visited is the order of some rank, and every
  choice of a visiting order for each set is the iteration of some \<open>ord\<close>.\<close>

lemma sort_key_any_order:
  assumes "distinct xs" and "mset ys = mset xs"
  shows "sort_key (\<lambda>x. length (takeWhile (\<lambda>y. y \<noteq> x) ys)) xs = ys"
proof -
  define rank where "rank x = length (takeWhile (\<lambda>y. y \<noteq> x) ys)" for x
  have d: "distinct ys"
    using assms by (metis mset_eq_imp_distinct_iff)
  have m: "map rank ys = [0..<length ys]"
    by (rule nth_equalityI) (simp_all add: rank_def position_nth[OF d])
  have "inj_on rank (set ys)"
  proof (rule inj_onI)
    fix a b assume a: "a \<in> set ys" and b: "b \<in> set ys" and e: "rank a = rank b"
    obtain i j where i: "i < length ys" "ys ! i = a" and j: "j < length ys" "ys ! j = b"
      using a b by (auto simp: in_set_conv_nth)
    have "rank a = i" "rank b = j"
      using position_nth[OF d i(1)] position_nth[OF d j(1)] i(2) j(2) by (simp_all add: rank_def)
    then show "a = b"
      using e i j by simp
  qed
  then have "inj_on rank (set xs)"
    using assms(2) by (metis mset_eq_setD)
  moreover have "sorted (map rank ys)"
    unfolding m by simp
  ultimately have "sort_key rank xs = ys"
    using assms(2) by (intro sort_key_inj_key_eq) simp_all
  then show ?thesis
    unfolding rank_def .
qed

lemma iter_any_order:
  assumes "\<forall>s. distinct s \<longrightarrow> mset (visit s) = mset s"
  shows "\<exists>ord. \<forall>s. distinct s \<longrightarrow> iter ord s = visit s"
proof -
  define ord where "ord s x = length (takeWhile (\<lambda>y. y \<noteq> x) (visit s))" for s and x :: 'a
  have "iter ord s = visit s" if "distinct s" for s
    using sort_key_any_order[OF that, of "visit s"] assms that
    unfolding iter_def ord_def by simp
  then show ?thesis
    by blast
qed

lemma ucs_loop_order_independent:
  assumes g: "set (word_set g) = set (word_set g')" "banned_words g = banned_words g'"
  shows "mset fr = mset fr' \<Longrightarrow>
    ucs_loop ord g target fr v = ucs_loop ord' g' target fr' v"
proof (induction fr v arbitrary: fr'
    rule: ucs_loop_induct[where ord = ord and g = g and target = target])
  case (step frontier visited)
  show ?case
  proof (cases "frontier = []")
    case True
    then have "fr' = []"
      using step.prems by simp
    with True show ?thesis
      by (simp add: ucs_loop.simps)
  next
    case False
    obtain cost current path rest where pop: "heappop frontier = ((cost, current, path), rest)"
      by (metis surj_pair)
    obtain rest' where pop': "heappop fr' = ((cost, current, path), rest')"
      and rest: "mset rest' = mset rest"
      using heappop_mset[OF step.prems pop] by blast
    have ne': "fr' \<noteq> []"
      using False step.prems by auto
    show ?thesis
    proof (cases "current = target")
      case True
      then show ?thesis
        by (simp add: ucs_loop_step[OF False pop] ucs_loop_step[OF ne' pop'])
    next
      case ne: False
      let ?F = "fold (ucs_visit cost path) (iter ord (get_neighbors g current)) (rest, visited)"
      let ?F' = "fold (ucs_visit cost path) (iter ord' (get_neighbors g' current)) (rest', visited)"
      have nb: "mset (iter ord (get_neighbors g current)) = mset (iter ord' (get_neighbors g' current))"
        by (simp add: get_neighbors_cong[OF g])
      have start: "bag (rest, visited) = bag (rest', visited)"
        using rest by simp
      have "bag ?F = bag ?F'"
        using ucs_visit_cong ucs_visit_comm nb start
        by (rule fold_abs_perm[of bag "ucs_visit cost path"])
      then have eq: "mset (fst ?F) = mset (fst ?F')" "snd ?F = snd ?F'"
        by (simp_all add: bag_def)
      have "ucs_loop ord g target (fst ?F) (snd ?F)
          = ucs_loop ord' g' target (fst ?F') (snd ?F)"
        using False pop ne eq(1) by (rule step.IH)
      then show ?thesis
        using ne eq(2) by (simp add: ucs_loop_step[OF False pop] ucs_loop_step[OF ne' pop'])
    qed
  qed
qed

lemma a_star_loop_order_independent:
  assumes g: "set (word_set g) = set (word_set g')" "banned_words g = banned_words g'"
  shows "mset fr = mset fr' \<Longrightarrow>
    a_star_loop ord g target fr v = a_star_loop ord' g' target fr' v"
proof (induction fr v arbitrary: fr'
    rule: a_star_loop_induct[where ord = ord and g = g and target = target])
  case (step frontier visited)
  show ?case
  proof (cases "frontier = []")
    case True
    then have "fr' = []"
      using step.prems by simp
    with True show ?thesis
      by (simp add: a_star_loop.simps)
  next
    case False
    obtain priority cost current path rest where pop: "heappop frontier = ((priority, cost, current, path), rest)"
      by (metis surj_pair)
    obtain rest' where pop': "heappop fr' = ((priority, cost, current, path), rest')"
      and rest: "mset rest' = mset rest"
      using heappop_mset[OF step.prems pop] by blast
    have ne': "fr' \<noteq> []"
      using False step.prems by auto
    show ?thesis
    proof (cases "current = target")
      case True
      then show ?thesis
        by (simp add: a_star_loop_step[OF False pop] a_star_loop_step[OF ne' pop'])
    next
      case ne: False
      let ?F = "fold (a_star_visit target cost path) (iter ord (get_neighbors g current)) (rest, visited)"
      let ?F' = "fold (a_star_visit target cost path) (iter ord' (get_neighbors g' current)) (rest', visited)"
      have nb: "mset (iter ord (get_neighbors g current)) = mset (iter ord' (get_neighbors g' current))"
        by (simp add: get_neighbors_cong[OF g])
      have start: "bag (rest, visited) = bag (rest', visited)"
        using rest by simp
      have "bag ?F = bag ?F'"
        using a_star_visit_cong a_star_visit_comm nb start
        by (rule fold_abs_perm[of bag "a_star_visit target cost path"])
      then have eq: "mset (fst ?F) = mset (fst ?F')" "snd ?F = snd ?F'"
        by (simp_all add: bag_def)
      have "a_star_loop ord g target (fst ?F) (snd ?F)
          = a_star_loop ord' g' target (fst ?F') (snd ?F)"
        using False pop ne eq(1) by (rule step.IH)
      then show ?thesis
        using ne eq(2) by (simp add: a_star_loop_step[OF False pop] a_star_loop_step[OF ne' pop'])
    qed
  qed
qed

lemma greedy_loop_order_independent:
  assumes g: "set (word_set g) = set (word_set g')" "banned_words g = banned_words g'"
  shows "mset fr = mset fr' \<Longrightarrow>
    greedy_loop ord g target fr v = greedy_loop ord' g' target fr' v"
proof (induction fr v arbitrary: fr'
    rule: greedy_loop_induct[where ord = ord and g = g and target = target])
  case (step frontier visited)
  show ?case
  proof (cases "frontier = []")
    case True
    then have "fr' = []"
      using step.prems by simp
    with True show ?thesis
      by (simp add: greedy_loop.simps)
  next
    case False
    obtain priority current path rest where pop: "heappop frontier = ((priority, current, path), rest)"
      by (metis surj_pair)
    obtain rest' where pop': "heappop fr' = ((priority, current, path), rest')"
      and rest: "mset rest' = mset rest"
      using heappop_mset[OF step.prems pop] by blast
    have ne': "fr' \<noteq> []"
      using False step.prems by auto
    show ?thesis
    proof (cases "current = target")
      case True
      then show ?thesis
        by (simp add: greedy_loop_step[OF False pop] greedy_loop_step[OF ne' pop'])
    next
      case ne: False
      let ?F = "fold (greedy_visit target path) (iter ord (get_neighbors g current)) (rest, visited)"
      let ?F' = "fold (greedy_visit target path) (iter ord' (get_neighbors g' current)) (rest', visited)"
      have nb: "mset (iter ord (get_neighbors g current)) = mset (iter ord' (get_neighbors g' current))"
        by (simp add: get_neighbors_cong[OF g])
      have start: "bag (rest, visited) = bag (rest', visited)"
        using rest by simp
      have "bag ?F = bag ?F'"
        using greedy_visit_cong greedy_visit_comm nb start
        by (rule fold_abs_perm[of bag "greedy_visit target path"])
      then have eq: "mset (fst ?F) = mset (fst ?F')" "snd ?F = snd ?F'"
        by (simp_all add: bag_def)
      have "greedy_loop ord g target (fst ?F) (snd ?F)
          = greedy_loop ord' g' target (fst ?F') (snd ?F)"
        using False pop ne eq(1) by (rule step.IH)
      then show ?thesis
        using ne eq(2) by (simp add: greedy_loop_step[OF False pop] greedy_loop_step[OF ne' pop'])
    qed
  qed
qed


lemma searches_cong:
  assumes "set (word_set g) = set (word_set g')" and "banned_words g = banned_words g'"
  shows "a_star_search ord g start target = a_star_search ord' g' start target
       \<and> greedy_best_first_search ord g start target
         = greedy_best_first_search ord' g' start target
       \<and> uniform_cost_search ord g start target = uniform_cost_search ord' g' start target"
  unfolding a_star_search_def greedy_best_first_search_def uniform_cost_search_def
  using a_star_loop_order_independent[OF assms refl]
    greedy_loop_order_independent[OF assms refl]
    ucs_loop_order_independent[OF assms refl]
  by (simp add: is_valid_word_cong[OF assms])

lemma demo_ucs_cat_dog:
  "uniform_cost_search (\<lambda>_ _. 0) demo ''cat'' ''dog'' = Some [''cat'', ''cag'', ''cog'', ''dog'']"
  unfolding demo_def by code_simp

text \<open>An iteration order for the examples: every set is visited from its last element
  to its first. The rank \<open>\<lambda>_ _. 0\<close> visits every set from its first element to its
  last.\<close>

definition reverse_order :: "'a list \<Rightarrow> 'a \<Rightarrow> nat" where
  "reverse_order s x = length s - length (takeWhile (\<lambda>y. y \<noteq> x) s)"

lemma demo_cat_reversed:
  "iter reverse_order (get_neighbors (demo\<lparr>score := 5\<rparr>) ''cat'') = [''cag'', ''cot'']"
  unfolding demo_def by code_simp

lemma demo_cat_forward:
  "iter (\<lambda>_ _. 0) (get_neighbors demo ''cat'') = [''cot'', ''cag'']"
  by (simp add: demo_cat iter_def)

text \<open>
  C2, as stated: every frontier entry carries a discovery-sequence number as the last
  field of its key, so that entries of equal priority leave the frontier in the order
  of their discovery. The entries of the code are \<open>(cost, word, path)\<close> (with the
  priority in front for A* and greedy search) and carry no such number: ties are
  broken by the word. From \<open>cat\<close> the neighbours are discovered in the order \<open>cot\<close>,
  \<open>cag\<close>, both at cost 1; the pop that follows returns the entry of \<open>cag\<close>, and the
  search returns the path through \<open>cag\<close>.
\<close>

theorem ucs_ties_broken_by_word:
  "iter (\<lambda>_ _. 0) (get_neighbors demo ''cat'') = [''cot'', ''cag'']
   \<and> fst (heappop (fst (fold (ucs_visit 0 [''cat'']) [''cot'', ''cag'']
                           ([], [''cat'' \<mapsto> 0]))))
       = (1, ''cag'', [''cat'', ''cag''])
   \<and> uniform_cost_search (\<lambda>_ _. 0) demo ''cat'' ''dog''
       = Some [''cat'', ''cag'', ''cog'', ''dog'']"
proof -
  have "fst (heappop (fst (fold (ucs_visit 0 [''cat'']) [''cot'', ''cag'']
                           ([], [''cat'' \<mapsto> 0]))))
       = (1, ''cag'', [''cat'', ''cag''])"
    by code_simp
  then show ?thesis
    using demo_ucs_cat_dog demo_cat_forward by simp
qed

text \<open>
  C2, amended: each of the three searches is deterministic for a fixed dictionary and
  banned set. A frontier entry is the tuple \<open>(priority, cost, word, path)\<close> (A*),
  \<open>(priority, word, path)\<close> (greedy) or \<open>(cost, word, path)\<close> (uniform cost), with no
  discovery-sequence number. The entries are compared field by field, so a tie in the
  priority is broken by the fields that follow it (the cost for A*, then the word, then
  the path), and the pop takes the least entry. The returned path is the same whatever
  the order in which each neighbour set is iterated (\<open>ord\<close> and \<open>ord'\<close> give every set
  an order of its own, and by \<open>iter_any_order\<close> every choice of orders arises so),
  whatever the representation of the dictionary as a set, and whatever the rest of
  the game object holds.
\<close>

theorem searches_deterministic:
  assumes "set (word_set g) = set (word_set g')" and "banned_words g = banned_words g'"
  shows "a_star_search ord g start target = a_star_search ord' g' start target
       \<and> greedy_best_first_search ord g start target
         = greedy_best_first_search ord' g' start target
       \<and> uniform_cost_search ord g start target = uniform_cost_search ord' g' start target"
  using assms by (rule searches_cong)

theorem searches_deterministic_witness:
  "iter (\<lambda>_ _. 0) (get_neighbors demo ''cat'') = [''cot'', ''cag'']
   \<and> iter reverse_order (get_neighbors (demo\<lparr>score := 5\<rparr>) ''cat'') = [''cag'', ''cot'']
   \<and> uniform_cost_search reverse_order (demo\<lparr>score := 5\<rparr>) ''cat'' ''dog''
       = Some [''cat'', ''cag'', ''cog'', ''dog'']
   \<and> a_star_search reverse_order (demo\<lparr>score := 5\<rparr>) ''cat'' ''dog''
       = a_star_search (\<lambda>_ _. 0) demo ''cat'' ''dog''
   \<and> greedy_best_first_search reverse_order (demo\<lparr>score := 5\<rparr>) ''cat'' ''dog''
       = greedy_best_first_search (\<lambda>_ _. 0) demo ''cat'' ''dog''"
  using searches_deterministic[of demo "demo\<lparr>score := 5\<rparr>" "\<lambda>_ _. 0" "''cat''" "''dog''"
      reverse_order]
    demo_ucs_cat_dog demo_cat_forward demo_cat_reversed
  by simp

section \<open>Uniform-cost search returns a shortest path (C1)\<close>

subsection \<open>Paths\<close>

text \<open>A path of the graph the searches walk: every element is a neighbour, as
  \<open>get_neighbors\<close> computes them, of the element before it.\<close>

definition chain :: "game \<Rightarrow> string list \<Rightarrow> bool" where
  "chain g p = successively (\<lambda>a b. b \<in> set (get_neighbors g a)) p"

definition path_from_to :: "game \<Rightarrow> string list \<Rightarrow> string \<Rightarrow> string \<Rightarrow> bool" where
  "path_from_to g p s t = (p \<noteq> [] \<and> hd p = s \<and> last p = t \<and> chain g p)"

lemma path_single: "path_from_to g [s] s s"
  by (simp add: path_from_to_def chain_def)

lemma path_snoc:
  assumes "path_from_to g p s w" and "n \<in> set (get_neighbors g w)"
  shows "path_from_to g (p @ [n]) s n"
  using assms by (auto simp: path_from_to_def chain_def successively_append_iff)

lemma path_cons:
  assumes "path_from_to g p b x" and "b \<in> set (get_neighbors g a)"
  shows "path_from_to g (a # p) a x"
  using assms by (cases p) (auto simp: path_from_to_def chain_def)

lemma path_border:
  assumes "path_from_to g p s t" and "vis s \<noteq> None" and "vis t = None"
  shows "\<exists>p1 x y. path_from_to g p1 s x \<and> vis x \<noteq> None \<and> y \<in> set (get_neighbors g x)
           \<and> vis y = None \<and> length p1 < length p"
  using assms
proof (induction p arbitrary: s)
  case Nil
  then show ?case by (simp add: path_from_to_def)
next
  case (Cons a p)
  have a: "a = s"
    using Cons.prems(1) by (simp add: path_from_to_def)
  show ?case
  proof (cases p)
    case Nil
    then have "s = t"
      using Cons.prems(1) by (auto simp: path_from_to_def)
    then show ?thesis
      using Cons.prems by simp
  next
    case (Cons b ws)
    have nb: "b \<in> set (get_neighbors g s)" and rest: "path_from_to g p b t"
      using Cons.prems(1) Cons a by (auto simp: path_from_to_def chain_def)
    show ?thesis
    proof (cases "vis b")
      case None
      then show ?thesis
        using nb Cons.prems(2) Cons path_single[of g s]
        by (intro exI[of _ "[s]"] exI[of _ s] exI[of _ b]) simp
    next
      case (Some cb)
      then obtain p1 x y where p1: "path_from_to g p1 b x" "vis x \<noteq> None"
        "y \<in> set (get_neighbors g x)" "vis y = None" "length p1 < length p"
        using Cons.IH[OF rest _ Cons.prems(3)] by auto
      have "path_from_to g (s # p1) s x"
        using p1(1) nb by (rule path_cons)
      then show ?thesis
        using p1 by (intro exI[of _ "s # p1"] exI[of _ x] exI[of _ y]) simp
    qed
  qed
qed


text \<open>The least entry and the rest of a heap.\<close>

lemma heappop_props:
  assumes "h \<noteq> []" and "heappop h = (m, rest)"
  shows "m \<in> set h" and "\<forall>e \<in> set h. m \<le> e" and "set rest \<subseteq> set h"
    and "set h \<subseteq> insert m (set rest)"
proof -
  have m: "m = Min (set h)" and rest: "rest = remove1 m h"
    using assms(2) by (auto simp: heappop_def)
  show "m \<in> set h"
    unfolding m using assms(1) by (intro Min_in) simp_all
  show "\<forall>e \<in> set h. m \<le> e"
    unfolding m by simp
  show "set rest \<subseteq> set h"
    unfolding rest by (rule set_remove1_subset)
  show "set h \<subseteq> insert m (set rest)"
    unfolding rest by (metis in_set_remove1 insertCI subsetI)
qed

text \<open>What the loop over the neighbours does, when no neighbour repeats.\<close>

definition ucs_new :: "nat \<Rightarrow> (string \<rightharpoonup> nat) \<Rightarrow> string \<Rightarrow> bool" where
  "ucs_new cost visited n = (case visited n of None \<Rightarrow> True | Some c \<Rightarrow> Suc cost < c)"

lemma ucs_fold_result:
  assumes "distinct ns"
  shows "set (fst (fold (ucs_visit cost path) ns (fr, vis)))
           = set fr \<union> {(Suc cost, n, path @ [n]) | n. n \<in> set ns \<and> ucs_new cost vis n}
       \<and> snd (fold (ucs_visit cost path) ns (fr, vis))
           = (\<lambda>w. if w \<in> set ns \<and> ucs_new cost vis w then Some (Suc cost) else vis w)"
  using assms
proof (induction ns arbitrary: fr vis)
  case Nil
  then show ?case by simp
next
  case (Cons n ns)
  obtain fr1 vis1 where step: "ucs_visit cost path n (fr, vis) = (fr1, vis1)"
    by (cases "ucs_visit cost path n (fr, vis)")
  have fr1: "set fr1 = set fr \<union> (if ucs_new cost vis n then {(Suc cost, n, path @ [n])} else {})"
    and vis1: "vis1 = (if ucs_new cost vis n then vis(n \<mapsto> Suc cost) else vis)"
    using step by (auto simp: ucs_visit_def ucs_new_def heappush_def Let_def split: if_splits)
  have other: "ucs_new cost vis1 w = ucs_new cost vis w" if "w \<in> set ns" for w
    using that Cons.prems by (auto simp: vis1 ucs_new_def)
  have IH: "set (fst (fold (ucs_visit cost path) ns (fr1, vis1)))
           = set fr1 \<union> {(Suc cost, n, path @ [n]) | n. n \<in> set ns \<and> ucs_new cost vis1 n}"
    "snd (fold (ucs_visit cost path) ns (fr1, vis1))
           = (\<lambda>w. if w \<in> set ns \<and> ucs_new cost vis1 w then Some (Suc cost) else vis1 w)"
    using Cons.IH[of fr1 vis1] Cons.prems by simp_all
  have "set (fst (fold (ucs_visit cost path) (n # ns) (fr, vis)))
      = set fr1 \<union> {(Suc cost, n, path @ [n]) | n. n \<in> set ns \<and> ucs_new cost vis1 n}"
    by (simp add: step IH(1))
  also have "\<dots>
      = set fr \<union> {(Suc cost, m, path @ [m]) | m. m \<in> set (n # ns) \<and> ucs_new cost vis m}"
    using other by (auto simp: fr1)
  finally have 1: "set (fst (fold (ucs_visit cost path) (n # ns) (fr, vis)))
      = set fr \<union> {(Suc cost, m, path @ [m]) | m. m \<in> set (n # ns) \<and> ucs_new cost vis m}" .
  have "snd (fold (ucs_visit cost path) (n # ns) (fr, vis))
      = (\<lambda>w. if w \<in> set ns \<and> ucs_new cost vis1 w then Some (Suc cost) else vis1 w)"
    by (simp add: step IH(2))
  also have "\<dots>
      = (\<lambda>w. if w \<in> set (n # ns) \<and> ucs_new cost vis w then Some (Suc cost) else vis w)"
    using other Cons.prems by (auto simp: vis1 fun_eq_iff)
  finally have 2: "snd (fold (ucs_visit cost path) (n # ns) (fr, vis))
      = (\<lambda>w. if w \<in> set (n # ns) \<and> ucs_new cost vis w then Some (Suc cost) else vis w)" .
  from 1 2 show ?case by blast
qed


subsection \<open>The loop invariant\<close>

text \<open>
  Every recorded cost is the distance from the start; every frontier entry carries a
  path of that many edges to a marked word; a marked word with an unmarked neighbour
  is still in the frontier; and so is the target, once marked.
\<close>

definition ucs_inv ::
  "game \<Rightarrow> string \<Rightarrow> string \<Rightarrow> ucs_entry list \<Rightarrow> (string \<rightharpoonup> nat) \<Rightarrow> bool" where
  "ucs_inv g start target fr vis \<longleftrightarrow>
     vis start = Some 0
   \<and> (\<forall>w c. vis w = Some c \<longrightarrow>
         (\<exists>p. path_from_to g p start w \<and> length p = Suc c)
       \<and> (\<forall>p. path_from_to g p start w \<longrightarrow> Suc c \<le> length p))
   \<and> (\<forall>c w p. (c, w, p) \<in> set fr \<longrightarrow>
         path_from_to g p start w \<and> length p = Suc c \<and> vis w = Some c)
   \<and> (\<forall>x cx y. vis x = Some cx \<longrightarrow> y \<in> set (get_neighbors g x) \<longrightarrow> vis y = None \<longrightarrow>
         (\<exists>p. (cx, x, p) \<in> set fr))
   \<and> (\<forall>c. vis target = Some c \<longrightarrow> (\<exists>p. (c, target, p) \<in> set fr))"

lemma path_length_pos: "path_from_to g p s t \<Longrightarrow> Suc 0 \<le> length p"
  by (cases p) (simp_all add: path_from_to_def)

lemma ucs_inv_init: "ucs_inv g start target [(0, start, [start])] [start \<mapsto> 0]"
proof -
  have "\<exists>p. path_from_to g p start start \<and> length p = Suc 0"
    using path_single[of g start] by (intro exI[of _ "[start]"]) simp
  then show ?thesis
    unfolding ucs_inv_def
    by (auto simp: path_single path_length_pos split: if_splits)
qed

lemma ucs_invD:
  assumes "ucs_inv g start target fr vis"
  shows "vis start = Some 0"
    and "\<And>w c. vis w = Some c \<Longrightarrow> \<exists>p. path_from_to g p start w \<and> length p = Suc c"
    and "\<And>w c p. vis w = Some c \<Longrightarrow> path_from_to g p start w \<Longrightarrow> Suc c \<le> length p"
    and "\<And>c w p. (c, w, p) \<in> set fr \<Longrightarrow>
           path_from_to g p start w \<and> length p = Suc c \<and> vis w = Some c"
    and "\<And>x cx y. vis x = Some cx \<Longrightarrow> y \<in> set (get_neighbors g x) \<Longrightarrow> vis y = None \<Longrightarrow>
           \<exists>p. (cx, x, p) \<in> set fr"
    and "\<And>c. vis target = Some c \<Longrightarrow> \<exists>p. (c, target, p) \<in> set fr"
  using assms unfolding ucs_inv_def by blast+

lemma ucs_entry_le: "((c :: nat, w :: string, p :: string list) \<le> (c', w', p')) \<Longrightarrow> c \<le> c'"
  by (auto simp: less_eq_prod_def)

lemma ucs_key:
  assumes inv: "ucs_inv g start target fr vis" and ne: "fr \<noteq> []"
    and pop: "heappop fr = ((c, w, q), rest)" and n: "n \<in> set (get_neighbors g w)"
  shows "case vis n of Some cn \<Rightarrow> cn \<le> Suc c
         | None \<Rightarrow> (\<forall>p. path_from_to g p start n \<longrightarrow> Suc (Suc c) \<le> length p)"
proof -
  note I = ucs_invD[OF inv]
  have m: "(c, w, q) \<in> set fr" and least: "\<forall>e \<in> set fr. (c, w, q) \<le> e"
    using heappop_props[OF ne pop] by blast+
  have q: "path_from_to g q start w" "length q = Suc c"
    using I(4)[OF m] by simp_all
  have qn: "path_from_to g (q @ [n]) start n"
    using q(1) n by (rule path_snoc)
  show ?thesis
  proof (cases "vis n")
    case (Some cn)
    have "Suc cn \<le> length (q @ [n])"
      using Some qn by (rule I(3))
    then show ?thesis
      using Some q(2) by simp
  next
    case None
    have "Suc (Suc c) \<le> length p" if p: "path_from_to g p start n" for p
    proof (rule ccontr)
      assume "\<not> Suc (Suc c) \<le> length p"
      then have short: "length p \<le> Suc c"
        by simp
      obtain p1 x y where b: "path_from_to g p1 start x" "vis x \<noteq> None"
        "y \<in> set (get_neighbors g x)" "vis y = None" "length p1 < length p"
        using path_border[where vis = vis, OF p _ None] I(1) by force
      obtain cx where cx: "vis x = Some cx"
        using b(2) by auto
      have "Suc cx \<le> length p1"
        using cx b(1) by (rule I(3))
      then have lt: "cx < c"
        using b(5) short by simp
      obtain p' where "(cx, x, p') \<in> set fr"
        using I(5)[OF cx b(3) b(4)] by blast
      then have "(c, w, q) \<le> (cx, x, p')"
        using least by blast
      then have "c \<le> cx"
        by (rule ucs_entry_le)
      with lt show False
        by simp
    qed
    then show ?thesis
      using None by simp
  qed
qed


lemma distinct_iter_neighbors: "distinct (iter ord (get_neighbors g w))"
  by (simp add: iter_def distinct_get_neighbors)

lemma ucs_inv_step:
  assumes inv: "ucs_inv g start target fr vis" and ne: "fr \<noteq> []"
    and pop: "heappop fr = ((c, w, q), rest)" and nt: "w \<noteq> target"
  shows "ucs_inv g start target
           (fst (fold (ucs_visit c q) (iter ord (get_neighbors g w)) (rest, vis)))
           (snd (fold (ucs_visit c q) (iter ord (get_neighbors g w)) (rest, vis)))"
proof -
  note I = ucs_invD[OF inv]
  let ?N = "set (get_neighbors g w)"
  let ?fr = "fst (fold (ucs_visit c q) (iter ord (get_neighbors g w)) (rest, vis))"
  let ?vis = "snd (fold (ucs_visit c q) (iter ord (get_neighbors g w)) (rest, vis))"
  have m: "(c, w, q) \<in> set fr" and rest_sub: "set rest \<subseteq> set fr"
    and fr_sub: "set fr \<subseteq> insert (c, w, q) (set rest)"
    using heappop_props[OF ne pop] by blast+
  have q: "path_from_to g q start w" "length q = Suc c" "vis w = Some c"
    using I(4)[OF m] by simp_all
  have key: "case vis n of Some cn \<Rightarrow> cn \<le> Suc c
         | None \<Rightarrow> (\<forall>p. path_from_to g p start n \<longrightarrow> Suc (Suc c) \<le> length p)"
    if "n \<in> ?N" for n
    using inv ne pop that by (rule ucs_key)
  have new_iff: "ucs_new c vis n \<longleftrightarrow> vis n = None" if "n \<in> ?N" for n
    using key[OF that] by (cases "vis n") (auto simp: ucs_new_def)
  have res: "set ?fr = set rest \<union> {(Suc c, n, q @ [n]) | n. n \<in> ?N \<and> ucs_new c vis n}"
    "?vis = (\<lambda>x. if x \<in> ?N \<and> ucs_new c vis x then Some (Suc c) else vis x)"
    using ucs_fold_result[OF distinct_iter_neighbors, of c q ord g w rest vis] by simp_all
  have fr': "e \<in> set ?fr \<longleftrightarrow> e \<in> set rest \<or> (\<exists>n. e = (Suc c, n, q @ [n]) \<and> n \<in> ?N \<and> vis n = None)"
    for e
    unfolding res(1) using new_iff by auto
  have vis': "?vis x = (if x \<in> ?N \<and> vis x = None then Some (Suc c) else vis x)" for x
    unfolding res(2) using new_iff by auto
  have old: "?vis x = Some cx" if "vis x = Some cx" for x cx
    using that by (simp add: vis')
  have cases_vis: "vis x = Some cx \<or> (vis x = None \<and> x \<in> ?N \<and> cx = Suc c)"
    if "?vis x = Some cx" for x cx
    using that by (auto simp: vis' split: if_splits)
  have fresh: "(\<exists>p. path_from_to g p start x \<and> length p = Suc (Suc c))
      \<and> (\<forall>p. path_from_to g p start x \<longrightarrow> Suc (Suc c) \<le> length p)"
    if "x \<in> ?N" "vis x = None" for x
  proof -
    have "path_from_to g (q @ [x]) start x"
      using q(1) that(1) by (rule path_snoc)
    then have "\<exists>p. path_from_to g p start x \<and> length p = Suc (Suc c)"
      using q(2) by (intro exI[of _ "q @ [x]"]) simp
    then show ?thesis
      using key[OF that(1)] that(2) by simp
  qed
  have 1: "?vis start = Some 0"
    using I(1) by (rule old)
  have 2: "(\<exists>p. path_from_to g p start x \<and> length p = Suc cx)
      \<and> (\<forall>p. path_from_to g p start x \<longrightarrow> Suc cx \<le> length p)"
    if "?vis x = Some cx" for x cx
    using cases_vis[OF that] I(2) I(3) fresh by blast
  have 3: "path_from_to g p start x \<and> length p = Suc cx \<and> ?vis x = Some cx"
    if "(cx, x, p) \<in> set ?fr" for cx x p
  proof -
    from that consider "(cx, x, p) \<in> set rest"
      | "cx = Suc c" "p = q @ [x]" "x \<in> ?N" "vis x = None"
      unfolding fr' by auto
    then show ?thesis
    proof cases
      case 1
      then have "path_from_to g p start x \<and> length p = Suc cx \<and> vis x = Some cx"
        using rest_sub I(4) by blast
      then show ?thesis
        using old by blast
    next
      case 2
      have "path_from_to g (q @ [x]) start x"
        using q(1) 2(3) by (rule path_snoc)
      then show ?thesis
        using 2 q(2) by (simp add: vis')
    qed
  qed
  have 4: "\<exists>p. (cx, x, p) \<in> set ?fr"
    if x: "?vis x = Some cx" and y: "y \<in> set (get_neighbors g x)" and vy: "?vis y = None"
    for x cx y
  proof -
    have vy0: "vis y = None" and yN: "y \<notin> ?N"
      using vy by (auto simp: vis' split: if_splits)
    from cases_vis[OF x] show ?thesis
    proof
      assume vx: "vis x = Some cx"
      then obtain p where p: "(cx, x, p) \<in> set fr"
        using I(5)[OF vx y vy0] by blast
      have "(cx, x, p) \<noteq> (c, w, q)"
        using y yN by auto
      then have "(cx, x, p) \<in> set rest"
        using p fr_sub by blast
      then show ?thesis
        unfolding fr' by blast
    next
      assume "vis x = None \<and> x \<in> ?N \<and> cx = Suc c"
      then have "(cx, x, q @ [x]) \<in> set ?fr"
        unfolding fr' by blast
      then show ?thesis ..
    qed
  qed
  have 5: "\<exists>p. (ct, target, p) \<in> set ?fr" if t: "?vis target = Some ct" for ct
  proof -
    from cases_vis[OF t] show ?thesis
    proof
      assume vt: "vis target = Some ct"
      then obtain p where p: "(ct, target, p) \<in> set fr"
        using I(6) by blast
      have "(ct, target, p) \<noteq> (c, w, q)"
        using nt by auto
      then have "(ct, target, p) \<in> set rest"
        using p fr_sub by blast
      then show ?thesis
        unfolding fr' by blast
    next
      assume "vis target = None \<and> target \<in> ?N \<and> ct = Suc c"
      then have "(ct, target, q @ [target]) \<in> set ?fr"
        unfolding fr' by blast
      then show ?thesis ..
    qed
  qed
  show ?thesis
    unfolding ucs_inv_def using 1 2 3 4 5 by blast
qed

text \<open>What a search is to deliver: a shortest path, or nothing when there is no path.\<close>

definition shortest_result :: "game \<Rightarrow> string \<Rightarrow> string \<Rightarrow> string list option \<Rightarrow> bool" where
  "shortest_result g start target r =
     (case r of
        None \<Rightarrow> \<not> (\<exists>p. path_from_to g p start target)
      | Some q \<Rightarrow> path_from_to g q start target
          \<and> (\<forall>p. path_from_to g p start target \<longrightarrow> length q \<le> length p))"

lemma ucs_loop_correct:
  "ucs_inv g start target fr vis \<Longrightarrow>
     shortest_result g start target (ucs_loop ord g target fr vis)"
proof (induction fr vis rule: ucs_loop_induct[where ord = ord and g = g and target = target])
  case (step frontier visited)
  note I = ucs_invD[OF step.prems]
  show ?case
  proof (cases "frontier = []")
    case True
    have "\<not> (\<exists>p. path_from_to g p start target)"
    proof
      assume "\<exists>p. path_from_to g p start target"
      then obtain p where p: "path_from_to g p start target" ..
      have "visited target = None"
        using I(6) True by (cases "visited target") auto
      then obtain x y where "visited x \<noteq> None" "y \<in> set (get_neighbors g x)" "visited y = None"
        using path_border[where vis = visited, OF p] I(1) by force
      then show False
        using I(5) True by fastforce
    qed
    then show ?thesis
      using True by (simp add: ucs_loop.simps shortest_result_def)
  next
    case False
    obtain c w q rest where pop: "heappop frontier = ((c, w, q), rest)"
      by (metis surj_pair)
    show ?thesis
    proof (cases "w = target")
      case True
      have m: "(c, w, q) \<in> set frontier"
        using heappop_props[OF False pop] by blast
      have q: "path_from_to g q start target" "length q = Suc c" "visited target = Some c"
        using I(4)[OF m] True by simp_all
      have "length q \<le> length p" if "path_from_to g p start target" for p
        using I(3)[OF q(3) that] q(2) by simp
      then show ?thesis
        using q(1) True by (simp add: ucs_loop_step[OF False pop] shortest_result_def)
    next
      case nt: False
      have "ucs_inv g start target
           (fst (fold (ucs_visit c q) (iter ord (get_neighbors g w)) (rest, visited)))
           (snd (fold (ucs_visit c q) (iter ord (get_neighbors g w)) (rest, visited)))"
        using step.prems False pop nt by (rule ucs_inv_step)
      with False pop nt
      have "shortest_result g start target
          (ucs_loop ord g target
            (fst (fold (ucs_visit c q) (iter ord (get_neighbors g w)) (rest, visited)))
            (snd (fold (ucs_visit c q) (iter ord (get_neighbors g w)) (rest, visited))))"
        by (rule step.IH)
      then show ?thesis
        using nt by (simp add: ucs_loop_step[OF False pop])
    qed
  qed
qed

lemma ucs_shortest:
  assumes "is_valid_word g start" and "is_valid_word g target"
  shows "shortest_result g start target (uniform_cost_search ord g start target)"
  using assms ucs_loop_correct[OF ucs_inv_init] by (simp add: uniform_cost_search_def)


subsection \<open>The one-letter-substitution graph\<close>

text \<open>
  Two words differ in exactly one letter position; a word ladder is a non-empty
  sequence of valid words in which consecutive words do; its number of edges is its
  length less one.
\<close>

definition differ_by_one :: "string \<Rightarrow> string \<Rightarrow> bool" where
  "differ_by_one a b \<longleftrightarrow>
     length a = length b \<and> length (filter (\<lambda>(x, y). x \<noteq> y) (zip a b)) = 1"

definition word_ladder :: "game \<Rightarrow> string list \<Rightarrow> bool" where
  "word_ladder g p \<longleftrightarrow>
     p \<noteq> [] \<and> (\<forall>w \<in> set p. is_word w \<and> is_valid_word g w) \<and> successively differ_by_one p"

definition reachable :: "game \<Rightarrow> string \<Rightarrow> string \<Rightarrow> bool" where
  "reachable g start target \<longleftrightarrow> (\<exists>p. word_ladder g p \<and> hd p = start \<and> last p = target)"

definition shortest_ladder :: "game \<Rightarrow> string \<Rightarrow> string \<Rightarrow> string list \<Rightarrow> bool" where
  "shortest_ladder g start target q \<longleftrightarrow>
     word_ladder g q \<and> hd q = start \<and> last q = target
   \<and> (\<forall>p. word_ladder g p \<and> hd p = start \<and> last p = target \<longrightarrow> length q - 1 \<le> length p - 1)"

lemma filter_zip_same [simp]: "filter (\<lambda>(x, y). x \<noteq> y) (zip xs xs) = []"
  by (induction xs) simp_all

lemma filter_zip_Nil:
  "length xs = length ys \<Longrightarrow> filter (\<lambda>(x, y). x \<noteq> y) (zip xs ys) = [] \<Longrightarrow> xs = ys"
  by (induction xs ys rule: list_induct2) (auto split: if_splits)

lemma subst_differ:
  assumes "i < length a" and "a ! i \<noteq> c"
  shows "differ_by_one a (take i a @ [c] @ drop (i + 1) a)"
proof -
  have a: "a = take i a @ [a ! i] @ drop (i + 1) a"
    using assms(1) by (simp add: id_take_nth_drop[symmetric])
  have "zip a (take i a @ [c] @ drop (i + 1) a)
      = zip (take i a) (take i a) @ [(a ! i, c)] @ zip (drop (i + 1) a) (drop (i + 1) a)"
    by (subst a) (simp add: zip_append del: append_take_drop_id)
  then show ?thesis
    using assms by (simp add: differ_by_one_def)
qed

lemma differ_subst:
  assumes "length a = length b" and "length (filter (\<lambda>(x, y). x \<noteq> y) (zip a b)) = 1"
  shows "\<exists>i c. i < length a \<and> b = take i a @ [c] @ drop (i + 1) a \<and> a ! i \<noteq> c"
  using assms
proof (induction a b rule: list_induct2)
  case Nil
  then show ?case by simp
next
  case (Cons x xs y ys)
  show ?case
  proof (cases "x = y")
    case True
    then have "length (filter (\<lambda>(x, y). x \<noteq> y) (zip xs ys)) = 1"
      using Cons.prems by simp
    then obtain i c where i: "i < length xs" "ys = take i xs @ [c] @ drop (i + 1) xs"
      "xs ! i \<noteq> c"
      using Cons.IH by blast
    have "Suc i < length (x # xs)"
      using i(1) by simp
    moreover have "y # ys = take (Suc i) (x # xs) @ [c] @ drop (Suc i + 1) (x # xs)"
      unfolding i(2) using True by simp
    moreover have "(x # xs) ! Suc i \<noteq> c"
      using i(3) by simp
    ultimately show ?thesis
      by blast
  next
    case False
    then have "filter (\<lambda>(x, y). x \<noteq> y) (zip xs ys) = []"
      using Cons.prems by simp
    with Cons.hyps have "xs = ys"
      by (rule filter_zip_Nil)
    then have "y # ys = take 0 (x # xs) @ [y] @ drop (0 + 1) (x # xs)"
      by simp
    moreover have "(x # xs) ! 0 \<noteq> y"
      using False by simp
    ultimately show ?thesis
      by (intro exI[of _ 0] exI[of _ y]) simp
  qed
qed

lemma neighbor_iff_differ:
  assumes a: "is_word a" "is_valid_word g a"
  shows "b \<in> set (get_neighbors g a) \<longleftrightarrow> is_word b \<and> is_valid_word g b \<and> differ_by_one a b"
proof
  assume "b \<in> set (get_neighbors g a)"
  then obtain i c where i: "i < length a" and c: "c \<in> set ascii_lowercase"
    and b: "b = take i a @ [c] @ drop (i + 1) a" and ne: "b \<noteq> a" and v: "is_valid_word g b"
    by (auto simp: set_get_neighbors)
  have "set b \<subseteq> set a \<union> {c}"
    unfolding b using set_take_subset[of i a] set_drop_subset[of "i + 1" a] by auto
  then have w: "is_word b"
    using a(1) c by (auto simp: is_word_def)
  have "a ! i \<noteq> c"
  proof
    assume "a ! i = c"
    then have "b = take i a @ a ! i # drop (Suc i) a"
      unfolding b by simp
    also have "\<dots> = a"
      by (rule id_take_nth_drop[OF i, symmetric])
    finally show False
      using ne by simp
  qed
  then have "differ_by_one a b"
    unfolding b using i by (intro subst_differ)
  with w v show "is_word b \<and> is_valid_word g b \<and> differ_by_one a b"
    by simp
next
  assume r: "is_word b \<and> is_valid_word g b \<and> differ_by_one a b"
  then have "length a = length b" "length (filter (\<lambda>(x, y). x \<noteq> y) (zip a b)) = 1"
    by (simp_all add: differ_by_one_def)
  from differ_subst[OF this]
  obtain i c where i: "i < length a" and b: "b = take i a @ [c] @ drop (i + 1) a"
    and ne: "a ! i \<noteq> c"
    by blast
  have "c \<in> set b"
    by (subst b) simp
  then have c: "c \<in> set ascii_lowercase"
    using r by (simp add: is_word_def)
  have "b \<noteq> a"
  proof
    assume "b = a"
    then have "a ! i = (take i a @ [c] @ drop (i + 1) a) ! i"
      using b by simp
    then show False
      using ne i by (simp add: nth_append)
  qed
  moreover have "b \<notin> banned_words g"
    using r lower_is_word[of b] by (simp add: is_valid_word_iff)
  ultimately have "\<exists>j d. j < length a \<and> d \<in> set ascii_lowercase
      \<and> b = take j a @ [d] @ drop (j + 1) a \<and> b \<noteq> a \<and> is_valid_word g b
      \<and> b \<notin> banned_words g"
    using i c b r by blast
  then show "b \<in> set (get_neighbors g a)"
    unfolding set_get_neighbors by blast
qed

lemma chain_iff_ladder:
  assumes "is_word s" "is_valid_word g s" "p \<noteq> []" "hd p = s"
  shows "chain g p \<longleftrightarrow> word_ladder g p"
  using assms
proof (induction p arbitrary: s)
  case Nil
  then show ?case by simp
next
  case (Cons a p)
  have a: "a = s"
    using Cons.prems by simp
  show ?case
  proof (cases p)
    case Nil
    then show ?thesis
      using Cons.prems by (simp add: chain_def word_ladder_def)
  next
    case (Cons b ws)
    show ?thesis
    proof (cases "is_word b \<and> is_valid_word g b")
      case True
      then have "chain g p \<longleftrightarrow> word_ladder g p"
        using Cons by (intro Cons.IH[of b]) simp_all
      then show ?thesis
        using Cons Cons.prems True neighbor_iff_differ[OF Cons.prems(1,2), of b]
        by (auto simp: chain_def word_ladder_def a)
    next
      case False
      then show ?thesis
        using Cons Cons.prems neighbor_iff_differ[OF Cons.prems(1,2), of b]
        by (auto simp: chain_def word_ladder_def a)
    qed
  qed
qed

lemma path_iff_ladder:
  assumes "is_word s" "is_valid_word g s"
  shows "path_from_to g p s t \<longleftrightarrow> word_ladder g p \<and> hd p = s \<and> last p = t"
  using chain_iff_ladder[OF assms, of p]
  by (auto simp: path_from_to_def word_ladder_def)

text \<open>
  C1: for valid, unbanned words \<open>start\<close> and \<open>target\<close>, when \<open>target\<close> is reachable
  from \<open>start\<close> in the one-letter-substitution graph, \<open>uniform_cost_search\<close> returns a
  ladder from \<open>start\<close> to \<open>target\<close> with the least number of edges among all such
  ladders (the breadth-first distance); when no ladder exists it returns \<open>None\<close>. The
  search always returns: the loop is a total function.
\<close>

theorem uniform_cost_search_shortest:
  assumes "is_word start" and "is_valid_word g start" and "is_valid_word g target"
  shows "case uniform_cost_search ord g start target of
           None \<Rightarrow> \<not> reachable g start target
         | Some q \<Rightarrow> shortest_ladder g start target q"
proof -
  note eq = path_iff_ladder[OF assms(1,2)]
  have le: "length q \<le> length p \<longleftrightarrow> length q - 1 \<le> length p - 1"
    if "word_ladder g q" "word_ladder g p" for p q
    using that by (cases p; cases q) (simp_all add: word_ladder_def)
  show ?thesis
    using ucs_shortest[OF assms(2,3), of ord]
    unfolding shortest_result_def reachable_def shortest_ladder_def eq
    by (auto split: option.splits simp: le)
qed

theorem uniform_cost_search_shortest_witness:
  "shortest_ladder demo ''cat'' ''dog'' [''cat'', ''cag'', ''cog'', ''dog'']"
proof -
  have w: "is_word ''cat''"
    by (simp add: is_word_def ascii_lowercase_def)
  have v: "is_valid_word demo ''cat''" "is_valid_word demo ''dog''"
    unfolding demo_def by code_simp+
  show ?thesis
    using uniform_cost_search_shortest[OF w v, of "\<lambda>_ _. 0"] demo_ucs_cat_dog by simp
qed


section \<open>The game session\<close>

subsection \<open>Randomness, the clock and exceptions\<close>

text \<open>
  The module \<^verbatim>\<open>random\<close> is a stream of raw draws that the calls consume in order;
  \<^verbatim>\<open>time.time()\<close> is a parameter \<open>now\<close> of the functions that read the clock.
  \<^verbatim>\<open>random.choice\<close> is only called on lists the code has checked to be non-empty,
  and \<^verbatim>\<open>random.sample\<close> with a size no larger than the population.
\<close>

type_synonym rng = "nat \<Rightarrow> nat"

definition shift :: "rng \<Rightarrow> rng" where
  "shift r = (\<lambda>i. r (Suc i))"

definition randint :: "nat \<Rightarrow> nat \<Rightarrow> rng \<Rightarrow> nat \<times> rng" where
  "randint a b r = (a + r 0 mod (b - a + 1), shift r)"

definition choice :: "'a list \<Rightarrow> rng \<Rightarrow> 'a \<times> rng" where
  "choice xs r = (xs ! (r 0 mod length xs), shift r)"

fun sample :: "'a list \<Rightarrow> nat \<Rightarrow> rng \<Rightarrow> 'a list \<times> rng" where
  "sample xs 0 r = ([], r)"
| "sample xs (Suc k) r =
     (if xs = [] then ([], r)
      else let i = r 0 mod length xs;
               (rest, r') = sample (take i xs @ drop (Suc i) xs) k (shift r)
           in (xs ! i # rest, r'))"

datatype exn = TypeError | IndexError | ZeroDivisionError

text \<open>\<^verbatim>\<open>int(x)\<close> on a float truncates towards zero.\<close>

definition py_int :: "real \<Rightarrow> int" where
  "py_int x = (if 0 \<le> x then \<lfloor>x\<rfloor> else \<lceil>x\<rceil>)"

subsection \<open>Setting up and starting a game\<close>

definition get_random_word :: "(string list \<Rightarrow> string \<Rightarrow> nat) \<Rightarrow> game \<Rightarrow> nat \<Rightarrow> rng \<Rightarrow> string option \<times> rng" where
  "get_random_word ord g n r =
     (let valid_words = filter (\<lambda>word. length word = n \<and> word \<notin> banned_words g
                                  \<and> (\<forall>c \<in> set word. c \<in> set ascii_lowercase))
                          (iter ord (word_set g))
      in if valid_words = [] then (None, r)
         else let (chosen_word, r) = choice valid_words r in (Some chosen_word, r))"

definition setup_difficulty ::
  "(string list \<Rightarrow> string \<Rightarrow> nat) \<Rightarrow> game \<Rightarrow> difficulty \<Rightarrow> rng \<Rightarrow> game \<times> rng" where
  "setup_difficulty ord g d r =
     (let settings = DIFFICULTY_SETTINGS d;
          g = g\<lparr>difficulty := d,
                hints_remaining := Fin (hint_limit settings),
                time_limit := s_time_limit settings,
                base_score := s_base_score settings,
                optimal_path_bonus := Some (s_optimal_path_bonus settings),
                time_factor := Some (s_time_factor settings),
                move_factor := Some (s_move_factor settings),
                hint_factor := Some (s_hint_factor settings)\<rparr>
      in if d = Challenge
         then let (word_length, r) =
                    randint (fst (word_length_range settings)) (snd (word_length_range settings)) r;
                  potential_words = filter (\<lambda>w. length w = word_length) (iter ord (word_set g));
                  (banned, r) = sample potential_words (min 10 (length potential_words)) r
              in (g\<lparr>banned_words := set banned\<rparr>, r)
         else (g\<lparr>banned_words := s_banned_words settings\<rparr>, r))"

definition build_graph :: "game \<Rightarrow> nat \<Rightarrow> game" where
  "build_graph g word_length =
     (let words_of_length = {word \<in> set (word_set g). length word = word_length}
      in g\<lparr>graph := (words_of_length,
            (\<Union>word \<in> words_of_length.
               (\<lambda>neighbor. {word, neighbor}) `
                 {neighbor \<in> set (get_neighbors g word). neighbor \<in> words_of_length}))\<rparr>)"

definition start_game ::
  "(string list \<Rightarrow> string \<Rightarrow> nat) \<Rightarrow> game \<Rightarrow> string \<Rightarrow> string \<Rightarrow> difficulty \<Rightarrow> real \<Rightarrow> rng
     \<Rightarrow> bool \<times> game \<times> rng" where
  "start_game ord g start_w target_w d now r =
     (let start_w = lower start_w;
          target_w = lower target_w;
          (g, r) = setup_difficulty ord g d r
      in if length start_w \<noteq> length target_w then (False, g, r)
         else if \<not> (is_valid_word g start_w \<and> is_valid_word g target_w)
         then (False, g, r)
         else case a_star_search ord g start_w target_w of
                None \<Rightarrow> (False, g, r)
              | Some path \<Rightarrow>
                  if path = [] then (False, g, r)
                  else let path_length = int (length path) - 1
                       in if d = Beginner \<and> path_length > 4
                             \<or> d = Advanced \<and> (path_length < 4 \<or> path_length > 7)
                             \<or> d = Challenge \<and> path_length < 7
                          then (False, g, r)
                          else (True,
                                build_graph
                                  (g\<lparr>current_word := start_w, target_word := target_w,
                                     path_history := [start_w], start_time := Some now,
                                     score := 0, hints_used := 0\<rparr>)
                                  (length start_w),
                                r))"

subsection \<open>Hints, the score and moves\<close>

definition get_hint :: "(string list \<Rightarrow> string \<Rightarrow> nat) \<Rightarrow> game \<Rightarrow> string \<Rightarrow> string option \<times> game" where
  "get_hint ord g algorithm =
     (if current_word g = target_word g \<or> hints_remaining g \<le> Fin 0 then (None, g)
      else let g = g\<lparr>hints_remaining := pynum_add (- 1) (hints_remaining g),
                     hints_used := hints_used g + 1\<rparr>;
               path = (if algorithm = ''greedy''
                       then greedy_best_first_search ord g (current_word g) (target_word g)
                       else if algorithm = ''uniform''
                       then uniform_cost_search ord g (current_word g) (target_word g)
                       else a_star_search ord g (current_word g) (target_word g))
           in (case path of
                 None \<Rightarrow> None
               | Some p \<Rightarrow> if length p > 1 then Some (p ! 1) else None,
               g))"

text \<open>The loop \<^verbatim>\<open>for i in range(1, self.hints_used + 1): hint_penalty += hint_factor * i\<close>,
  started at 0.\<close>

definition hint_penalty :: "int \<Rightarrow> nat \<Rightarrow> int" where
  "hint_penalty hf hints = fold (\<lambda>i penalty. penalty + hf * int i) [1..<hints + 1] 0"

text \<open>The score before the clamp at 0, from the moves beyond the optimal path, the
  elapsed time and the number of hints. The float expressions are computed in exact
  real arithmetic and \<^verbatim>\<open>int\<close> truncates the exact value; a double computation
  rounds before it truncates, so where the exact product is an integer the code's term
  can be one less than the model's (after 270 of 300 seconds in the advanced profile the
  exact penalty is 100 and the score 2400, the doubles give 99 and 2401). The results
  below on the score use the clamp at 0 and the hint penalty, which are integer
  arithmetic, and not the value of the time term.\<close>

definition raw_score :: "difficulty \<Rightarrow> pynum \<Rightarrow> int \<Rightarrow> real \<Rightarrow> nat \<Rightarrow> exn + int" where
  "raw_score d limit extra_moves time_taken hints =
     (let settings = DIFFICULTY_SETTINGS d;
          base = s_base_score settings;
          bonus = s_optimal_path_bonus settings;
          tf = s_time_factor settings;
          mf = s_move_factor settings;
          hf = s_hint_factor settings;
          sc = base;
          sc = (if extra_moves = 0 then sc + bonus
                else if extra_moves \<le> 2
                then sc + py_int (real_of_int bonus * (1 - real_of_int extra_moves / 5))
                else sc)
      in case (case limit of
                 Fin l \<Rightarrow>
                   if l = 0 then Inl ZeroDivisionError
                   else let time_percentage = time_taken / real_of_int l
                        in if time_percentage < 0.5
                           then Inr (sc + py_int ((0.5 - time_percentage)
                                                   * real_of_int base * 0.5))
                           else if time_percentage > 0.8
                           then Inr (sc - py_int ((time_percentage - 0.8)
                                                   * real_of_int base * 0.5))
                           else Inr sc
               | Inf \<Rightarrow>
                   Inr (sc - min (py_int (time_taken * real_of_int tf))
                                 (py_int (real_of_int base * 0.3)))) of
           Inl e \<Rightarrow> Inl e
         | Inr sc \<Rightarrow>
             let sc = (if extra_moves > 0 then sc - extra_moves * mf else sc);
                 sc = (if hints > 0 then sc - hint_penalty hf hints else sc)
             in Inr sc)"

definition calculate_score :: "(string list \<Rightarrow> string \<Rightarrow> nat) \<Rightarrow> game \<Rightarrow> real \<Rightarrow> exn + (int \<times> game)" where
  "calculate_score ord g now =
     (case start_time g of
        None \<Rightarrow> Inl TypeError
      | Some started \<Rightarrow>
          (let time_taken = now - started
           in (case path_history g of
                 [] \<Rightarrow> Inl IndexError
               | first # _ \<Rightarrow>
                   (case a_star_search ord g first (target_word g) of
                      None \<Rightarrow> Inl TypeError
                    | Some optimal \<Rightarrow>
                        (let optimal_path_length = int (length optimal) - 1;
                             user_path_length = int (length (path_history g)) - 1;
                             extra_moves = max 0 (user_path_length - optimal_path_length)
                         in (case raw_score (difficulty g) (time_limit g) extra_moves
                                    time_taken (hints_used g) of
                               Inl e \<Rightarrow> Inl e
                             | Inr sc \<Rightarrow> Inr (max 0 sc, g\<lparr>score := max 0 sc\<rparr>)))))))"

definition make_move :: "(string list \<Rightarrow> string \<Rightarrow> nat) \<Rightarrow> game \<Rightarrow> string \<Rightarrow> real \<Rightarrow> exn + (bool \<times> game)" where
  "make_move ord g new_word now =
     (let new_word = lower new_word
      in if \<not> is_valid_word g new_word then Inr (False, g)
         else if length new_word \<noteq> length (current_word g) then Inr (False, g)
         else if length (filter (\<lambda>(a, b). a \<noteq> b) (zip new_word (current_word g))) \<noteq> 1
         then Inr (False, g)
         else let g = g\<lparr>current_word := new_word,
                         path_history := path_history g @ [new_word]\<rparr>
              in if new_word = target_word g
                 then (case calculate_score ord g now of
                         Inl e \<Rightarrow> Inl e
                       | Inr (_, g) \<Rightarrow> Inr (True, g))
                 else Inr (True, g))"

subsection \<open>Remaining time\<close>

datatype pytime = Seconds real | Unlimited

definition get_time_remaining :: "game \<Rightarrow> real \<Rightarrow> pytime" where
  "get_time_remaining g now =
     (case start_time g of
        None \<Rightarrow> (case time_limit g of Fin l \<Rightarrow> Seconds (real_of_int l) | Inf \<Rightarrow> Unlimited)
      | Some started \<Rightarrow>
          (let elapsed = now - started
           in (case time_limit g of
                 Fin l \<Rightarrow> Seconds (max 0 (real_of_int l - elapsed))
               | Inf \<Rightarrow> Unlimited)))"

definition is_game_over :: "game \<Rightarrow> real \<Rightarrow> bool" where
  "is_game_over g now =
     (current_word g = target_word g
      \<or> (case get_time_remaining g now of Seconds t \<Rightarrow> t \<le> 0 | Unlimited \<Rightarrow> False))"

subsection \<open>Suggesting a pair of words\<close>

text \<open>One level of the breadth expansion: the two nested \<^verbatim>\<open>for\<close> loops over the
  current level and over the neighbours of each of its words.\<close>

definition expand_level ::
  "(string list \<Rightarrow> string \<Rightarrow> nat) \<Rightarrow> game \<Rightarrow> nat \<Rightarrow> string pyset \<Rightarrow> string set \<Rightarrow> string pyset \<times> string set" where
  "expand_level ord g word_length current_level visited =
     fold (\<lambda>word (next_level, visited).
        fold (\<lambda>neighbor (next_level, visited).
           if neighbor \<notin> visited \<and> length neighbor = word_length
           then (set_add neighbor next_level, insert neighbor visited)
           else (next_level, visited))
          (iter ord (get_neighbors g word)) (next_level, visited))
       (iter ord current_level) ([], visited)"

text \<open>\<^verbatim>\<open>for _ in range(target_distance)\<close>, left by \<^verbatim>\<open>break\<close> when a level is
  empty; the result is the last \<^verbatim>\<open>current_level\<close>.\<close>

fun levels ::
  "(string list \<Rightarrow> string \<Rightarrow> nat) \<Rightarrow> game \<Rightarrow> nat \<Rightarrow> nat \<Rightarrow> string pyset \<Rightarrow> string set \<Rightarrow> string pyset" where
  "levels ord g word_length 0 current_level visited = current_level"
| "levels ord g word_length (Suc k) current_level visited =
     (let (next_level, visited) = expand_level ord g word_length current_level visited
      in if next_level = [] then next_level
         else levels ord g word_length k next_level visited)"

text \<open>One attempt: a pair when the attempt returns from the function, nothing when
  the outer loop goes on.\<close>

definition suggest_attempt ::
  "(string list \<Rightarrow> string \<Rightarrow> nat) \<Rightarrow> game \<Rightarrow> difficulty \<Rightarrow> nat \<Rightarrow> string list \<Rightarrow> rng
     \<Rightarrow> (string \<times> string) option \<times> rng" where
  "suggest_attempt ord g d word_length valid_words r =
     (let (start_w, r) = choice valid_words r;
          (target_distance, r) =
             (if d = Beginner then randint 2 4 r
              else if d = Advanced then randint 4 7 r
              else randint 7 10 r);
          current_level = levels ord g word_length target_distance [start_w] {start_w}
      in if current_level \<noteq> []
         then let potential_targets = filter (\<lambda>w. w \<noteq> start_w) (iter ord current_level)
              in if potential_targets \<noteq> []
                 then let (target_w, r) = choice potential_targets r
                      in (case a_star_search ord g start_w target_w of
                            None \<Rightarrow> (None, r)
                          | Some path \<Rightarrow>
                              if path \<noteq> []
                              then let path_length = int (length path) - 1
                                   in if d = Beginner \<and> 2 \<le> path_length \<and> path_length \<le> 4
                                         \<or> d = Advanced \<and> 4 \<le> path_length \<and> path_length \<le> 7
                                         \<or> d = Challenge \<and> path_length \<ge> 7
                                      then (Some (start_w, target_w), r)
                                      else (None, r)
                              else (None, r))
                 else (None, r)
         else (None, r))"

fun suggest_attempts ::
  "nat \<Rightarrow> (string list \<Rightarrow> string \<Rightarrow> nat) \<Rightarrow> game \<Rightarrow> difficulty \<Rightarrow> nat \<Rightarrow> string list \<Rightarrow> rng
     \<Rightarrow> (string option \<times> string option) \<times> rng" where
  "suggest_attempts 0 ord g d word_length valid_words r = ((None, None), r)"
| "suggest_attempts (Suc n) ord g d word_length valid_words r =
     (case suggest_attempt ord g d word_length valid_words r of
        (Some (start_w, target_w), r) \<Rightarrow> ((Some start_w, Some target_w), r)
      | (None, r) \<Rightarrow> suggest_attempts n ord g d word_length valid_words r)"

definition suggest_word_pair ::
  "(string list \<Rightarrow> string \<Rightarrow> nat) \<Rightarrow> game \<Rightarrow> difficulty \<Rightarrow> rng \<Rightarrow> (string option \<times> string option) \<times> rng" where
  "suggest_word_pair ord g d r =
     (let (word_length, r) =
            (if d = Beginner then randint 3 4 r
             else if d = Advanced then randint 5 6 r
             else randint 6 8 r);
          valid_words = filter (\<lambda>word. length word = word_length \<and> word \<notin> banned_words g
                                   \<and> (\<forall>c \<in> set word. c \<in> set ascii_lowercase))
                          (iter ord (word_set g))
      in if length valid_words < 2 then ((None, None), r)
         else suggest_attempts 50 ord g d word_length valid_words r)"


section \<open>The score (C5, C6)\<close>

text \<open>A finished game on the example corpus: cat, cot, cog, dog in 30 seconds.\<close>

definition demo_won :: game where
  "demo_won = demo\<lparr>current_word := ''dog'', target_word := ''dog'',
                    path_history := [''cat'', ''cot'', ''cog'', ''dog''],
                    start_time := Some 100\<rparr>"

lemma demo_a_star_cat_dog:
  "a_star_search (\<lambda>_ _. 0) demo ''cat'' ''dog'' = Some [''cat'', ''cag'', ''cog'', ''dog'']"
  unfolding demo_def by code_simp

lemma demo_fields:
  "difficulty demo = Beginner" "time_limit demo = Inf" "hints_used demo = 0"
  "banned_words demo = {}"
  by (simp_all add: demo_def init_def)

lemma demo_won_a_star:
  "a_star_search (\<lambda>_ _. 0) (demo_won\<lparr>hints_used := h\<rparr>) ''cat'' ''dog''
     = Some [''cat'', ''cag'', ''cog'', ''dog'']"
  using searches_cong[of "demo_won\<lparr>hints_used := h\<rparr>" demo "\<lambda>_ _. 0" "''cat''" "''dog''" "\<lambda>_ _. 0"]
    demo_a_star_cat_dog
  by (simp add: demo_won_def)

lemma hint_penalty_0 [simp]: "hint_penalty hf 0 = 0"
  by (simp add: hint_penalty_def)

lemma hint_penalty_Suc: "hint_penalty hf (Suc h) = hint_penalty hf h + hf * int (Suc h)"
  by (simp add: hint_penalty_def)

lemma raw_score_total:
  assumes "limit \<noteq> Fin 0"
  shows "\<exists>sc. raw_score d limit extra time_taken h = Inr sc"
  using assms by (cases limit) (auto simp: raw_score_def Let_def)

lemma raw_score_Suc:
  assumes "raw_score d limit extra time_taken h = Inr a"
  shows "raw_score d limit extra time_taken (Suc h)
           = Inr (a - s_hint_factor (DIFFICULTY_SETTINGS d) * int (Suc h))"
proof (cases h)
  case 0
  then show ?thesis
    using assms
    by (cases limit) (auto simp: raw_score_def Let_def hint_penalty_Suc split: if_splits)
next
  case (Suc k)
  then show ?thesis
    using assms
    by (cases limit) (auto simp: raw_score_def Let_def hint_penalty_Suc[of _ "Suc k"] split: if_splits)
qed

lemma hint_factor_pos: "0 < s_hint_factor (DIFFICULTY_SETTINGS d)"
  by (cases d) simp_all

lemma raw_score_mono:
  assumes "h \<le> h'" and "raw_score d limit extra time_taken h = Inr a"
  shows "\<exists>b. raw_score d limit extra time_taken h' = Inr b \<and> b \<le> a"
  using assms
proof (induction h' arbitrary: )
  case 0
  then show ?case by simp
next
  case (Suc h')
  show ?case
  proof (cases "h = Suc h'")
    case True
    then show ?thesis
      using Suc.prems by simp
  next
    case False
    then have "h \<le> h'"
      using Suc.prems by simp
    then obtain b where b: "raw_score d limit extra time_taken h' = Inr b" "b \<le> a"
      using Suc.IH Suc.prems by blast
    have "0 \<le> s_hint_factor (DIFFICULTY_SETTINGS d) * int (Suc h')"
      using hint_factor_pos[of d] by simp
    then show ?thesis
      using raw_score_Suc[OF b(1)] b(2) by auto
  qed
qed


lemma calculate_score_unfold:
  assumes "start_time g = Some t0" and "path_history g = first # others"
    and "a_star_search ord g first (target_word g) = Some p"
  shows "calculate_score ord g now =
     (case raw_score (difficulty g) (time_limit g)
             (max 0 (int (length (path_history g)) - 1 - (int (length p) - 1)))
             (now - t0) (hints_used g) of
        Inl e \<Rightarrow> Inl e
      | Inr sc \<Rightarrow> Inr (max 0 sc, g\<lparr>score := max 0 sc\<rparr>))"
  using assms by (simp add: calculate_score_def Let_def)

text \<open>
  C5: in every session state in which the start time is recorded, the path history is
  not empty and A* finds a path from the first word of the history to the target (and
  the time limit is one a profile provides, never 0), \<open>calculate_score\<close> returns an
  integer score that is at least 0, and stores it in the session.
\<close>

theorem calculate_score_nonneg:
  assumes "start_time g = Some t0" and "path_history g \<noteq> []"
    and "a_star_search ord g (hd (path_history g)) (target_word g) = Some p"
    and "time_limit g \<noteq> Fin 0"
  shows "\<exists>sc g'. calculate_score ord g now = Inr (sc, g') \<and> 0 \<le> sc \<and> score g' = sc"
proof -
  obtain first others where h: "path_history g = first # others"
    using assms(2) by (cases "path_history g") auto
  have p: "a_star_search ord g first (target_word g) = Some p"
    using assms(3) h by simp
  obtain sc where "raw_score (difficulty g) (time_limit g)
             (max 0 (int (length (path_history g)) - 1 - (int (length p) - 1)))
             (now - t0) (hints_used g) = Inr sc"
    using raw_score_total[OF assms(4)] by blast
  then show ?thesis
    by (simp add: calculate_score_unfold[OF assms(1) h p])
qed

theorem calculate_score_nonneg_witness:
  "(\<exists>sc g'. calculate_score (\<lambda>_ _. 0) demo_won 130 = Inr (sc, g') \<and> 0 \<le> sc \<and> score g' = sc)
   \<and> map_sum id fst (calculate_score (\<lambda>_ _. 0) demo_won 130) = Inr 1240"
proof -
  have a: "a_star_search (\<lambda>_ _. 0) demo_won (hd (path_history demo_won)) (target_word demo_won)
      = Some [''cat'', ''cag'', ''cog'', ''dog'']"
    using demo_won_a_star[of "hints_used demo_won"] by (simp add: demo_won_def)
  have 1: "\<exists>sc g'. calculate_score (\<lambda>_ _. 0) demo_won 130 = Inr (sc, g') \<and> 0 \<le> sc
      \<and> score g' = sc"
    by (rule calculate_score_nonneg[OF _ _ a]) (simp_all add: demo_won_def demo_fields)
  have a': "a_star_search (\<lambda>_ _. 0) demo_won ''cat'' ''dog''
      = Some [''cat'', ''cag'', ''cog'', ''dog'']"
    using a by (simp add: demo_won_def)
  have 2: "map_sum id fst (calculate_score (\<lambda>_ _. 0) demo_won 130) = Inr 1240"
    apply (subst calculate_score_unfold[where ?t0.0 = 100 and first = "''cat''"
          and others = "[''cot'', ''cog'', ''dog'']" and p = "[''cat'', ''cag'', ''cog'', ''dog'']"])
       apply (simp_all add: demo_won_def demo_fields a'[unfolded demo_won_def])
    apply (simp add: raw_score_def py_int_def)
    done
  from 1 2 show ?thesis ..
qed

text \<open>
  C6: with the path history, the elapsed time, the difficulty profile and the rest of
  the session fixed, the score \<open>calculate_score\<close> returns does not increase when
  \<open>hints_used\<close> grows. The hint after \<open>h\<close> hints adds \<open>hint_factor * (h + 1)\<close> to the
  penalty and takes as much from the score before the clamp, and this marginal penalty
  grows strictly with \<open>h\<close>.
\<close>

theorem score_nonincreasing_in_hints:
  assumes "h \<le> h'" and "calculate_score ord (g\<lparr>hints_used := h\<rparr>) now = Inr (s, g1)"
  shows "(\<exists>s' g2. calculate_score ord (g\<lparr>hints_used := h'\<rparr>) now = Inr (s', g2) \<and> s' \<le> s)
       \<and> hint_penalty (s_hint_factor (DIFFICULTY_SETTINGS (difficulty g))) (Suc h)
           - hint_penalty (s_hint_factor (DIFFICULTY_SETTINGS (difficulty g))) h
         = s_hint_factor (DIFFICULTY_SETTINGS (difficulty g)) * int (Suc h)
       \<and> s_hint_factor (DIFFICULTY_SETTINGS (difficulty g)) * int (Suc h)
           < s_hint_factor (DIFFICULTY_SETTINGS (difficulty g)) * int (Suc (Suc h))
       \<and> (\<forall>e t a. raw_score (difficulty g) (time_limit g) e t h = Inr a \<longrightarrow>
             raw_score (difficulty g) (time_limit g) e t (Suc h)
               = Inr (a - s_hint_factor (DIFFICULTY_SETTINGS (difficulty g)) * int (Suc h)))"
proof -
  let ?g = "g\<lparr>hints_used := h\<rparr>" and ?g' = "g\<lparr>hints_used := h'\<rparr>"
  obtain t0 where t0: "start_time g = Some t0"
    using assms(2) by (cases "start_time g") (simp_all add: calculate_score_def)
  obtain first others where ph: "path_history g = first # others"
    using assms(2) t0 by (cases "path_history g") (simp_all add: calculate_score_def)
  have same: "a_star_search ord ?g first (target_word g) = a_star_search ord g first (target_word g)"
    "a_star_search ord ?g' first (target_word g) = a_star_search ord g first (target_word g)"
    using searches_cong[of ?g g ord first "target_word g" ord]
      searches_cong[of ?g' g ord first "target_word g" ord] by simp_all
  obtain p where p: "a_star_search ord g first (target_word g) = Some p"
    using assms(2) t0 ph same(1)
    by (cases "a_star_search ord g first (target_word g)") (simp_all add: calculate_score_def)
  let ?e = "max 0 (int (length (path_history g)) - 1 - (int (length p) - 1))"
  have u: "calculate_score ord ?g now =
     (case raw_score (difficulty g) (time_limit g) ?e (now - t0) h of
        Inl e \<Rightarrow> Inl e | Inr sc \<Rightarrow> Inr (max 0 sc, ?g\<lparr>score := max 0 sc\<rparr>))"
    using calculate_score_unfold[of ?g t0 first others ord p now] t0 ph p same(1) by simp
  have u': "calculate_score ord ?g' now =
     (case raw_score (difficulty g) (time_limit g) ?e (now - t0) h' of
        Inl e \<Rightarrow> Inl e | Inr sc \<Rightarrow> Inr (max 0 sc, ?g'\<lparr>score := max 0 sc\<rparr>))"
    using calculate_score_unfold[of ?g' t0 first others ord p now] t0 ph p same(2) by simp
  obtain a where a: "raw_score (difficulty g) (time_limit g) ?e (now - t0) h = Inr a"
    and s: "s = max 0 a"
    using assms(2) unfolding u
    by (cases "raw_score (difficulty g) (time_limit g) ?e (now - t0) h") auto
  obtain b where b: "raw_score (difficulty g) (time_limit g) ?e (now - t0) h' = Inr b" "b \<le> a"
    using raw_score_mono[OF assms(1) a] by blast
  have 1: "\<exists>s' g2. calculate_score ord ?g' now = Inr (s', g2) \<and> s' \<le> s"
    unfolding u' using b s by simp
  have 2: "hint_penalty (s_hint_factor (DIFFICULTY_SETTINGS (difficulty g))) (Suc h)
           - hint_penalty (s_hint_factor (DIFFICULTY_SETTINGS (difficulty g))) h
         = s_hint_factor (DIFFICULTY_SETTINGS (difficulty g)) * int (Suc h)"
    by (simp add: hint_penalty_Suc)
  have 3: "s_hint_factor (DIFFICULTY_SETTINGS (difficulty g)) * int (Suc h)
           < s_hint_factor (DIFFICULTY_SETTINGS (difficulty g)) * int (Suc (Suc h))"
    using hint_factor_pos[of "difficulty g"] by simp
  from 1 2 3 show ?thesis
    using raw_score_Suc by blast
qed

theorem score_nonincreasing_in_hints_witness:
  "map_sum id fst (calculate_score (\<lambda>_ _. 0) (demo_won\<lparr>hints_used := 0\<rparr>) 130) = Inr 1240
   \<and> (\<exists>s' g2. calculate_score (\<lambda>_ _. 0) (demo_won\<lparr>hints_used := 2\<rparr>) 130 = Inr (s', g2)
         \<and> s' \<le> 1240)
   \<and> map_sum id fst (calculate_score (\<lambda>_ _. 0) (demo_won\<lparr>hints_used := 2\<rparr>) 130) = Inr 1090"
proof -
  have e: "calculate_score (\<lambda>_ _. 0) (demo_won\<lparr>hints_used := h\<rparr>) 130
      = Inr (max 0 (1240 - hint_penalty 50 h),
             demo_won\<lparr>hints_used := h, score := max 0 (1240 - hint_penalty 50 h)\<rparr>)" for h
    apply (subst calculate_score_unfold[where ?t0.0 = 100 and first = "''cat''"
          and others = "[''cot'', ''cog'', ''dog'']" and p = "[''cat'', ''cag'', ''cog'', ''dog'']"])
       apply (simp_all add: demo_won_def demo_fields demo_won_a_star[unfolded demo_won_def])
    apply (simp add: raw_score_def py_int_def demo_won_def)
    done
  have p2: "hint_penalty 50 2 = 150"
    by (simp add: hint_penalty_def numeral_2_eq_2)
  have 0: "calculate_score (\<lambda>_ _. 0) (demo_won\<lparr>hints_used := 0\<rparr>) 130
      = Inr (1240, demo_won\<lparr>hints_used := 0, score := 1240\<rparr>)"
    using e[of 0] by simp
  from score_nonincreasing_in_hints[OF _ 0, of 2]
  have "\<exists>s' g2. calculate_score (\<lambda>_ _. 0) (demo_won\<lparr>hints_used := 2\<rparr>) 130 = Inr (s', g2)
         \<and> s' \<le> 1240"
    by simp
  then show ?thesis
    using e[of 0] e[of 2] p2 by simp
qed


section \<open>Moves and the path history (C7, C9, C10)\<close>

lemma lower_char_idem [simp]: "lower_char (lower_char c) = lower_char c"
proof (cases "65 \<le> (of_char c :: nat) \<and> (of_char c :: nat) \<le> 90")
  case True
  then have "(of_char (char_of (of_char c + 32 :: nat)) :: nat) = of_char c + 32"
    by simp
  then show ?thesis
    using True by (simp add: lower_char_def Let_def)
next
  case False
  then show ?thesis
    by (auto simp: lower_char_def Let_def)
qed

lemma lower_idem [simp]: "lower (lower w) = lower w"
  by (simp add: lower_def)

lemma is_valid_word_lower:
  "is_valid_word g (lower w) \<longleftrightarrow> lower w \<in> set (word_set g) \<and> lower w \<notin> banned_words g"
  by (simp add: is_valid_word_iff)

lemma diff_count_sym:
  "length (filter (\<lambda>(a, b). a \<noteq> b) (zip xs ys)) = length (filter (\<lambda>(a, b). a \<noteq> b) (zip ys xs))"
proof (induction xs arbitrary: ys)
  case Nil
  then show ?case by simp
next
  case (Cons x xs)
  then show ?case
    by (cases ys) auto
qed

lemma differ_by_one_sym: "differ_by_one a b \<longleftrightarrow> differ_by_one b a"
  using diff_count_sym[of a b] by (auto simp: differ_by_one_def)

lemma calculate_score_keeps:
  assumes "calculate_score ord g now = Inr (sc, g')"
  shows "g' = g\<lparr>score := sc\<rparr>"
  using assms
  by (auto simp: calculate_score_def Let_def split: option.splits list.splits sum.splits)

lemma make_move_rejects:
  assumes "lower w \<notin> set (word_set g) \<or> lower w \<in> banned_words g
      \<or> length (lower w) \<noteq> length (current_word g)
      \<or> \<not> differ_by_one (current_word g) (lower w)"
  shows "make_move ord g w now = Inr (False, g)"
proof -
  have "\<not> is_valid_word g (lower w) \<or> length (lower w) \<noteq> length (current_word g)
      \<or> length (filter (\<lambda>(a, b). a \<noteq> b) (zip (lower w) (current_word g))) \<noteq> 1"
    using assms diff_count_sym[of "lower w" "current_word g"]
    by (auto simp: is_valid_word_lower differ_by_one_def)
  then show ?thesis
    by (auto simp: make_move_def Let_def)
qed

lemma make_move_accepts:
  assumes "make_move ord g w now = Inr (True, g')"
  shows "is_valid_word g (lower w)" and "differ_by_one (current_word g) (lower w)"
    and "\<exists>sc. g' = g\<lparr>current_word := lower w, path_history := path_history g @ [lower w],
                      score := sc\<rparr>"
proof -
  have v: "is_valid_word g (lower w)" and l: "length (lower w) = length (current_word g)"
    and c: "length (filter (\<lambda>(a, b). a \<noteq> b) (zip (lower w) (current_word g))) = 1"
    using assms by (auto simp: make_move_def Let_def split: if_splits)
  show "is_valid_word g (lower w)"
    by (rule v)
  show "differ_by_one (current_word g) (lower w)"
    using l c diff_count_sym[of "lower w" "current_word g"] by (simp add: differ_by_one_def)
  let ?g = "g\<lparr>current_word := lower w, path_history := path_history g @ [lower w]\<rparr>"
  show "\<exists>sc. g' = g\<lparr>current_word := lower w, path_history := path_history g @ [lower w],
                      score := sc\<rparr>"
  proof (cases "lower w = target_word g")
    case True
    then obtain sc where "calculate_score ord ?g now = Inr (sc, g')"
      using assms v l c
      by (auto simp: make_move_def Let_def split: sum.splits)
    then have "g' = ?g\<lparr>score := sc\<rparr>"
      by (rule calculate_score_keeps)
    then show ?thesis
      by blast
  next
    case False
    then have "g' = ?g"
      using assms v l c by (simp add: make_move_def Let_def)
    then have "g' = ?g\<lparr>score := score g\<rparr>"
      by simp
    then show ?thesis
      by blast
  qed
qed

text \<open>
  C7: \<open>make_move\<close> returns false, and leaves the session as it is, when the lower-cased
  word is absent from the corpus or banned, when its length is not that of the current
  word, or when it does not differ from the current word in exactly one letter
  position; when it returns true the lower-cased word has been appended to the path
  history and is the current word.
\<close>

theorem make_move_validation:
  "(lower w \<notin> set (word_set g) \<or> lower w \<in> banned_words g
      \<or> length (lower w) \<noteq> length (current_word g)
      \<or> \<not> differ_by_one (current_word g) (lower w)
     \<longrightarrow> make_move ord g w now = Inr (False, g))
   \<and> (\<forall>g'. make_move ord g w now = Inr (True, g')
     \<longrightarrow> current_word g' = lower w \<and> path_history g' = path_history g @ [lower w])"
proof (intro conjI impI allI)
  assume "lower w \<notin> set (word_set g) \<or> lower w \<in> banned_words g
      \<or> length (lower w) \<noteq> length (current_word g)
      \<or> \<not> differ_by_one (current_word g) (lower w)"
  then show "make_move ord g w now = Inr (False, g)"
    by (rule make_move_rejects)
next
  fix g'
  assume "make_move ord g w now = Inr (True, g')"
  from make_move_accepts(3)[OF this]
  show "current_word g' = lower w" and "path_history g' = path_history g @ [lower w]"
    by auto
qed


subsection \<open>Starting a game\<close>

lemma setup_difficulty_fields:
  assumes "setup_difficulty ord g d r = (g', r')"
  shows "word_set g' = word_set g" and "difficulty g' = d"
    and "hints_remaining g' = Fin (hint_limit (DIFFICULTY_SETTINGS d))"
    and "time_limit g' = s_time_limit (DIFFICULTY_SETTINGS d)"
    and "base_score g' = s_base_score (DIFFICULTY_SETTINGS d)"
    and "optimal_path_bonus g' = Some (s_optimal_path_bonus (DIFFICULTY_SETTINGS d))"
    and "time_factor g' = Some (s_time_factor (DIFFICULTY_SETTINGS d))"
    and "move_factor g' = Some (s_move_factor (DIFFICULTY_SETTINGS d))"
    and "hint_factor g' = Some (s_hint_factor (DIFFICULTY_SETTINGS d))"
    and "path_history g' = path_history g" and "current_word g' = current_word g"
  using assms
  by (auto simp: setup_difficulty_def Let_def split: if_splits prod.splits)

lemma start_game_False:
  assumes "start_game ord g sw tw d now r = (False, g', r')"
  shows "(g', r') = setup_difficulty ord g d r"
  using assms
  by (auto simp: start_game_def Let_def split: if_splits prod.splits option.splits)

lemma start_game_True:
  assumes "start_game ord g sw tw d now r = (True, g', r')"
  shows "\<exists>g1. (g1, r') = setup_difficulty ord g d r
           \<and> is_valid_word g1 (lower sw) \<and> is_valid_word g1 (lower tw)
           \<and> g' = build_graph
                    (g1\<lparr>current_word := lower sw, target_word := lower tw,
                        path_history := [lower sw], start_time := Some now,
                        score := 0, hints_used := 0\<rparr>)
                    (length (lower sw))"
  using assms
  by (auto simp: start_game_def Let_def split: if_splits prod.splits option.splits)

text \<open>A run of moves, each of which must succeed.\<close>

fun play :: "(string list \<Rightarrow> string \<Rightarrow> nat) \<Rightarrow> game \<Rightarrow> (string \<times> real) list \<Rightarrow> game option" where
  "play ord g [] = Some g"
| "play ord g ((w, now) # ms) =
     (case make_move ord g w now of
        Inr (ok, g') \<Rightarrow> if ok then play ord g' ms else None
      | Inl e \<Rightarrow> None)"

definition session_inv :: "game \<Rightarrow> string \<Rightarrow> bool" where
  "session_inv g start \<longleftrightarrow>
     path_history g \<noteq> [] \<and> hd (path_history g) = start
   \<and> last (path_history g) = current_word g
   \<and> (\<forall>w \<in> set (path_history g). w \<in> set (word_set g) \<and> w \<notin> banned_words g)
   \<and> successively differ_by_one (path_history g)"

lemma session_inv_start:
  assumes "start_game ord g sw tw d now r = (True, g', r')"
  shows "session_inv g' (lower sw)"
proof -
  obtain g1 where g1: "is_valid_word g1 (lower sw)"
    and g': "g' = build_graph
                    (g1\<lparr>current_word := lower sw, target_word := lower tw,
                        path_history := [lower sw], start_time := Some now,
                        score := 0, hints_used := 0\<rparr>)
                    (length (lower sw))"
    using start_game_True[OF assms] by blast
  show ?thesis
    using g1 unfolding g' session_inv_def
    by (simp add: build_graph_def Let_def is_valid_word_lower)
qed

lemma session_inv_move:
  assumes "make_move ord g w now = Inr (True, g')" and "session_inv g start"
  shows "session_inv g' start"
proof -
  note m = make_move_accepts[OF assms(1)]
  obtain sc where g': "g' = g\<lparr>current_word := lower w,
      path_history := path_history g @ [lower w], score := sc\<rparr>"
    using m(3) by blast
  have "successively differ_by_one (path_history g @ [lower w])"
    using assms(2) m(2) by (simp add: session_inv_def successively_append_iff)
  then show ?thesis
    using assms(2) m(1) unfolding g' session_inv_def
    by (simp add: is_valid_word_lower)
qed

lemma session_inv_play:
  assumes "play ord g ms = Some g'" and "session_inv g start"
  shows "session_inv g' start"
  using assms
proof (induction ms arbitrary: g)
  case Nil
  then show ?case by simp
next
  case (Cons m ms)
  obtain w now where m: "m = (w, now)"
    by (cases m)
  obtain g1 where mv: "make_move ord g w now = Inr (True, g1)" and rest: "play ord g1 ms = Some g'"
    using Cons.prems(1) unfolding m
    by (auto split: sum.splits if_splits)
  have "session_inv g1 start"
    using mv Cons.prems(2) by (rule session_inv_move)
  with rest show ?case
    by (rule Cons.IH)
qed

text \<open>
  C9: in every session state reached by a successful \<open>start_game\<close> followed by
  successful calls of \<open>make_move\<close>, the path history is not empty, begins with the
  (lower-cased) start word, ends with the current word, holds only words of the corpus
  that are not banned, and any two consecutive words have the same length and differ in
  exactly one letter position.
\<close>

theorem path_history_invariant:
  assumes "start_game ord g0 sw tw d now r = (True, g1, r1)" and "play ord g1 moves = Some g"
  shows "path_history g \<noteq> [] \<and> hd (path_history g) = lower sw
       \<and> last (path_history g) = current_word g
       \<and> (\<forall>w \<in> set (path_history g). w \<in> set (word_set g) \<and> w \<notin> banned_words g)
       \<and> successively differ_by_one (path_history g)"
  using session_inv_play[OF assms(2) session_inv_start[OF assms(1)]]
  by (simp add: session_inv_def)

text \<open>\<^verbatim>\<open>random.sample\<close>: the sample has the requested size, consists of distinct
  elements of the population, and takes one draw for each of them.\<close>

lemma sample_Suc:
  assumes "xs \<noteq> []"
  shows "fst (sample xs (Suc k) r)
           = xs ! (r 0 mod length xs)
             # fst (sample (take (r 0 mod length xs) xs @ drop (Suc (r 0 mod length xs)) xs) k
                     (shift r))"
    and "snd (sample xs (Suc k) r)
           = snd (sample (take (r 0 mod length xs) xs @ drop (Suc (r 0 mod length xs)) xs) k
                     (shift r))"
  using assms by (simp_all add: Let_def split: prod.splits)

lemma sample_length:
  "k \<le> length xs \<Longrightarrow> length (fst (sample xs k r)) = k"
proof (induction k arbitrary: xs r)
  case 0
  then show ?case by simp
next
  case (Suc k)
  then have ne: "xs \<noteq> []" by auto
  let ?i = "r 0 mod length xs"
  have "?i < length xs" using ne by simp
  then have "k \<le> length (take ?i xs @ drop (Suc ?i) xs)"
    using Suc.prems by simp
  then show ?case
    using Suc.IH sample_Suc(1)[OF ne] by simp
qed

lemma sample_rng:
  "k \<le> length xs \<Longrightarrow> snd (sample xs k r) = (shift ^^ k) r"
proof (induction k arbitrary: xs r)
  case 0
  then show ?case by simp
next
  case (Suc k)
  then have ne: "xs \<noteq> []" by auto
  let ?i = "r 0 mod length xs"
  have "?i < length xs" using ne by simp
  then have "k \<le> length (take ?i xs @ drop (Suc ?i) xs)"
    using Suc.prems by simp
  then have "snd (sample (take ?i xs @ drop (Suc ?i) xs) k (shift r)) = (shift ^^ k) (shift r)"
    by (rule Suc.IH)
  then show ?case
    using sample_Suc(2)[OF ne, of k r] by (simp add: funpow_swap1)
qed

lemma sample_set: "set (fst (sample xs k r)) \<subseteq> set xs"
proof (induction k arbitrary: xs r)
  case 0
  then show ?case by simp
next
  case (Suc k)
  show ?case
  proof (cases "xs = []")
    case True
    then show ?thesis by simp
  next
    case False
    let ?i = "r 0 mod length xs"
    let ?ys = "take ?i xs @ drop (Suc ?i) xs"
    have "set ?ys \<subseteq> set xs"
      using set_take_subset[of ?i xs] set_drop_subset[of "Suc ?i" xs] by auto
    moreover have "xs ! ?i \<in> set xs"
      using False by simp
    ultimately show ?thesis
      using Suc.IH[of ?ys "shift r"] sample_Suc(1)[OF False, of k r] by auto
  qed
qed

lemma sample_distinct:
  "distinct xs \<Longrightarrow> distinct (fst (sample xs k r))"
proof (induction k arbitrary: xs r)
  case 0
  then show ?case by simp
next
  case (Suc k)
  show ?case
  proof (cases "xs = []")
    case True
    then show ?thesis by simp
  next
    case False
    let ?i = "r 0 mod length xs"
    let ?ys = "take ?i xs @ drop (Suc ?i) xs"
    have i: "?i < length xs" using False by simp
    have xs: "xs = take ?i xs @ xs ! ?i # drop (Suc ?i) xs"
      using i by (rule id_take_nth_drop)
    have "distinct (take ?i xs @ xs ! ?i # drop (Suc ?i) xs)"
      using Suc.prems xs by metis
    then have d: "distinct ?ys" and n: "xs ! ?i \<notin> set ?ys"
      by auto
    have "xs ! ?i \<notin> set (fst (sample ?ys k (shift r)))"
      using n sample_set[of ?ys k "shift r"] by blast
    then show ?thesis
      using Suc.IH[OF d, of "shift r"] sample_Suc(1)[OF False, of k r] by simp
  qed
qed

lemma setup_difficulty_other:
  assumes "setup_difficulty ord g d r = (g', r')" and "d \<noteq> Challenge"
  shows "banned_words g' = {}" and "r' = r"
  using assms by (cases d; auto simp: setup_difficulty_def Let_def)+

lemma setup_difficulty_challenge:
  assumes "setup_difficulty ord g Challenge r = (g', r')"
    and "pot = filter (\<lambda>w. length w = 6 + r 0 mod 3) (iter ord (word_set g))"
  shows "banned_words g' = set (fst (sample pot (min 10 (length pot)) (shift r)))"
    and "r' = (shift ^^ Suc (min 10 (length pot))) r"
    and "banned_words g' \<subseteq> {w \<in> set (word_set g). length w = 6 + r 0 mod 3}"
    and "distinct (word_set g) \<longrightarrow> card (banned_words g') = min 10 (length pot)"
proof -
  let ?n = "min 10 (length pot)"
  have e: "(g', r') = (let (banned, r1) = sample pot ?n (shift r)
                       in (g\<lparr>difficulty := Challenge,
                hints_remaining := Fin 1,
                time_limit := Fin 180,
                base_score := 3000,
                optimal_path_bonus := Some 1000,
                time_factor := Some 10,
                move_factor := Some 100,
                hint_factor := Some 300, banned_words := set banned\<rparr>, r1))"
    using assms(1) unfolding assms(2)
    by (simp add: setup_difficulty_def Let_def randint_def split: prod.splits)
  then show b: "banned_words g' = set (fst (sample pot ?n (shift r)))"
    by (simp split: prod.splits)
  have "r' = snd (sample pot ?n (shift r))"
    using e by (simp split: prod.splits)
  then show "r' = (shift ^^ Suc ?n) r"
    using sample_rng[of ?n pot "shift r"] by (simp add: funpow_swap1)
  have "set pot \<subseteq> {w \<in> set (word_set g). length w = 6 + r 0 mod 3}"
    unfolding assms(2) by auto
  then show "banned_words g' \<subseteq> {w \<in> set (word_set g). length w = 6 + r 0 mod 3}"
    unfolding b using sample_set[of pot ?n "shift r"] by blast
  show "distinct (word_set g) \<longrightarrow> card (banned_words g') = ?n"
  proof
    assume "distinct (word_set g)"
    then have "distinct pot"
      unfolding assms(2) iter_def by simp
    then have "distinct (fst (sample pot ?n (shift r)))"
      by (rule sample_distinct)
    then show "card (banned_words g') = ?n"
      unfolding b using sample_length[of ?n pot "shift r"] by (simp add: distinct_card)
  qed
qed

text \<open>
  C10: \<open>start_game\<close> applies \<open>setup_difficulty\<close> before it validates anything, so a
  call that returns false leaves the session as \<open>setup_difficulty\<close> made it: the
  difficulty, the hint budget, the time limit, the base score and the scoring factors
  are those of the requested difficulty. Outside challenge mode the banned set is the
  empty set of the profile and no draw is consumed. In challenge mode the banned set is
  drawn afresh: one draw fixes a word length between 6 and 8, the words of that length
  are the population, and the banned set is the sample of \<open>min(10, n)\<close> of its \<open>n\<close>
  words taken with the next draws, one draw for each sampled word; it has exactly
  that many elements.
\<close>

theorem start_game_failure_keeps_setup:
  assumes "start_game ord g sw tw d now r = (False, g', r')"
  shows "(g', r') = setup_difficulty ord g d r
       \<and> difficulty g' = d
       \<and> hints_remaining g' = Fin (hint_limit (DIFFICULTY_SETTINGS d))
       \<and> time_limit g' = s_time_limit (DIFFICULTY_SETTINGS d)
       \<and> base_score g' = s_base_score (DIFFICULTY_SETTINGS d)
       \<and> optimal_path_bonus g' = Some (s_optimal_path_bonus (DIFFICULTY_SETTINGS d))
       \<and> time_factor g' = Some (s_time_factor (DIFFICULTY_SETTINGS d))
       \<and> move_factor g' = Some (s_move_factor (DIFFICULTY_SETTINGS d))
       \<and> hint_factor g' = Some (s_hint_factor (DIFFICULTY_SETTINGS d))
       \<and> (d \<noteq> Challenge \<longrightarrow> banned_words g' = {} \<and> r' = r)
       \<and> (d = Challenge \<longrightarrow>
            (let word_length = 6 + r 0 mod 3;
                 potential_words = filter (\<lambda>w. length w = word_length) (iter ord (word_set g));
                 n = min 10 (length potential_words)
             in banned_words g' = set (fst (sample potential_words n (shift r)))
                \<and> r' = (shift ^^ Suc n) r
                \<and> banned_words g' \<subseteq> {w \<in> set (word_set g). length w = word_length}
                \<and> (distinct (word_set g) \<longrightarrow> card (banned_words g') = n)))"
proof -
  have e: "setup_difficulty ord g d r = (g', r')"
    using start_game_False[OF assms] by simp
  have o: "d \<noteq> Challenge \<longrightarrow> banned_words g' = {} \<and> r' = r"
    using setup_difficulty_other[OF e] by simp
  have c: "d = Challenge \<longrightarrow>
            (let word_length = 6 + r 0 mod 3;
                 potential_words = filter (\<lambda>w. length w = word_length) (iter ord (word_set g));
                 n = min 10 (length potential_words)
             in banned_words g' = set (fst (sample potential_words n (shift r)))
                \<and> r' = (shift ^^ Suc n) r
                \<and> banned_words g' \<subseteq> {w \<in> set (word_set g). length w = word_length}
                \<and> (distinct (word_set g) \<longrightarrow> card (banned_words g') = n))"
  proof
    assume d: "d = Challenge"
    show "let word_length = 6 + r 0 mod 3;
                 potential_words = filter (\<lambda>w. length w = word_length) (iter ord (word_set g));
                 n = min 10 (length potential_words)
             in banned_words g' = set (fst (sample potential_words n (shift r)))
                \<and> r' = (shift ^^ Suc n) r
                \<and> banned_words g' \<subseteq> {w \<in> set (word_set g). length w = word_length}
                \<and> (distinct (word_set g) \<longrightarrow> card (banned_words g') = n)"
      unfolding Let_def
      using setup_difficulty_challenge[OF e[unfolded d] refl] by blast
  qed
  show ?thesis
    using setup_difficulty_fields[OF e] e o c by (simp only: simp_thms)
qed



subsection \<open>Example sessions\<close>

lemma start_gameI:
  assumes "setup_difficulty ord g d r = (g1, r1)"
    and "length (lower sw) = length (lower tw)"
    and "is_valid_word g1 (lower sw)" and "is_valid_word g1 (lower tw)"
    and "a_star_search ord g1 (lower sw) (lower tw) = Some p" and "p \<noteq> []"
    and "\<not> (d = Beginner \<and> int (length p) - 1 > 4
           \<or> d = Advanced \<and> (int (length p) - 1 < 4 \<or> int (length p) - 1 > 7)
           \<or> d = Challenge \<and> int (length p) - 1 < 7)"
  shows "start_game ord g sw tw d now r =
           (True,
            build_graph
              (g1\<lparr>current_word := lower sw, target_word := lower tw,
                  path_history := [lower sw], start_time := Some now,
                  score := 0, hints_used := 0\<rparr>)
              (length (lower sw)),
            r1)"
  using assms by (simp add: start_game_def Let_def)

lemma demo_words: "word_set demo = [''cat'', ''cot'', ''cog'', ''dog'', ''dot'', ''cag'']"
  unfolding demo_def by code_simp

text \<open>The example game: cat to dog for a beginner, started at time 100.\<close>

definition demo_setup :: game where
  "demo_setup = fst (setup_difficulty (\<lambda>_ _. 0) demo Beginner (\<lambda>_. 0))"

definition demo_started :: game where
  "demo_started =
     build_graph
       (demo_setup\<lparr>current_word := ''cat'', target_word := ''dog'',
                   path_history := [''cat''], start_time := Some 100,
                   score := 0, hints_used := 0\<rparr>) 3"

lemma demo_setup_eq: "setup_difficulty (\<lambda>_ _. 0) demo Beginner (\<lambda>_. 0) = (demo_setup, \<lambda>_. 0)"
  by (simp add: demo_setup_def setup_difficulty_def)

lemma demo_setup_fields:
  "word_set demo_setup = word_set demo" "banned_words demo_setup = {}"
  by (simp_all add: demo_setup_def setup_difficulty_def)

lemma lower_CAT: "lower ''CAT'' = ''cat''" "lower ''dog'' = ''dog''" "lower ''dot'' = ''dot''"
  "lower ''COT'' = ''cot''" "lower ''cot'' = ''cot''" "lower ''COG'' = ''cog''"
  "lower ''cat'' = ''cat''" "lower ''cog'' = ''cog''"
  by code_simp+

lemma demo_start:
  "start_game (\<lambda>_ _. 0) demo ''CAT'' ''dog'' Beginner 100 (\<lambda>_. 0)
     = (True, demo_started, \<lambda>_. 0)"
proof -
  have a: "a_star_search (\<lambda>_ _. 0) demo_setup ''cat'' ''dog''
      = Some [''cat'', ''cag'', ''cog'', ''dog'']"
    using searches_cong[of demo_setup demo "\<lambda>_ _. 0" "''cat''" "''dog''" "\<lambda>_ _. 0"]
      demo_a_star_cat_dog
    by (simp add: demo_setup_fields demo_fields)
  have "start_game (\<lambda>_ _. 0) demo ''CAT'' ''dog'' Beginner 100 (\<lambda>_. 0) =
           (True,
            build_graph
              (demo_setup\<lparr>current_word := lower ''CAT'', target_word := lower ''dog'',
                  path_history := [lower ''CAT''], start_time := Some 100,
                  score := 0, hints_used := 0\<rparr>)
              (length (lower ''CAT'')),
            \<lambda>_. 0)"
    by (rule start_gameI[OF demo_setup_eq, where p = "[''cat'', ''cag'', ''cog'', ''dog'']"])
      (simp_all add: lower_CAT a is_valid_word_iff demo_setup_fields demo_words)
  then show ?thesis
    by (simp add: demo_started_def lower_CAT numeral_3_eq_3)
qed

lemma demo_started_fields:
  "word_set demo_started = word_set demo" "banned_words demo_started = {}"
  "current_word demo_started = ''cat''" "target_word demo_started = ''dog''"
  "path_history demo_started = [''cat'']"
  by (simp_all add: demo_started_def build_graph_def Let_def demo_setup_fields)

definition demo_moved :: game where
  "demo_moved = demo_started\<lparr>current_word := ''cot'', path_history := [''cat'', ''cot'']\<rparr>"

theorem make_move_validation_witness:
  "make_move (\<lambda>_ _. 0) demo_started ''dot'' 110 = Inr (False, demo_started)
   \<and> make_move (\<lambda>_ _. 0) demo_started ''COT'' 110 = Inr (True, demo_moved)
   \<and> current_word demo_moved = lower ''COT''
   \<and> path_history demo_moved = path_history demo_started @ [lower ''COT'']"
proof -
  have "\<not> differ_by_one (current_word demo_started) (lower ''dot'')"
    by (simp add: demo_started_fields lower_CAT differ_by_one_def)
  then have 1: "make_move (\<lambda>_ _. 0) demo_started ''dot'' 110 = Inr (False, demo_started)"
    using make_move_validation[of "''dot''" demo_started "\<lambda>_ _. 0" 110] by blast
  have 2: "make_move (\<lambda>_ _. 0) demo_started ''COT'' 110 = Inr (True, demo_moved)"
    by (simp add: make_move_def Let_def lower_CAT is_valid_word_iff demo_started_fields
        demo_words demo_moved_def)
  from 1 2 show ?thesis
    using make_move_validation[of "''COT''" demo_started "\<lambda>_ _. 0" 110] by blast
qed

definition demo_played :: game where
  "demo_played = demo_started\<lparr>current_word := ''cog'',
                               path_history := [''cat'', ''cot'', ''cog'']\<rparr>"

lemma demo_play:
  "play (\<lambda>_ _. 0) demo_started [(''cot'', 110), (''COG'', 120)] = Some demo_played"
  by (simp add: make_move_def Let_def lower_CAT is_valid_word_iff demo_started_fields
      demo_words demo_played_def)

theorem path_history_invariant_witness:
  "path_history demo_played = [''cat'', ''cot'', ''cog'']
   \<and> hd (path_history demo_played) = lower ''CAT''
   \<and> last (path_history demo_played) = current_word demo_played
   \<and> successively differ_by_one (path_history demo_played)"
proof -
  have "path_history demo_played = [''cat'', ''cot'', ''cog'']"
    by (simp add: demo_played_def)
  then show ?thesis
    using path_history_invariant[OF demo_start demo_play] by blast
qed


text \<open>A corpus with eleven six-letter words, for the challenge profile: the sample
  of ten leaves one of them out.\<close>

definition demo_long :: game where
  "demo_long = init [''cat'', ''cot'', ''banana'', ''bandit'', ''candle'', ''castle'', ''dinner'',
                     ''winner'', ''letter'', ''better'', ''butter'', ''batter'', ''matter'']"


lemma shift_funpow: "(shift ^^ k) r i = r (k + i)"
  by (induction k arbitrary: i) (simp_all add: shift_def)

lemma triple_collapse: "fst x = a \<Longrightarrow> x = (a, fst (snd x), snd (snd x))"
  by (cases x) auto

lemma demo_long_six:
  "filter (\<lambda>w. length w = 6 + 0 mod 3) (iter (\<lambda>_ _. 0) (word_set demo_long))
     = [''banana'', ''bandit'', ''candle'', ''castle'', ''dinner'', ''winner'', ''letter'',
        ''better'', ''butter'', ''batter'', ''matter'']"
  unfolding demo_long_def by code_simp

lemma demo_long_sample:
  "fst (sample [''banana'', ''bandit'', ''candle'', ''castle'', ''dinner'', ''winner'', ''letter'',
                ''better'', ''butter'', ''batter'', ''matter''] 10 (shift (\<lambda>i. i)))
     = [''bandit'', ''castle'', ''winner'', ''better'', ''batter'', ''banana'', ''letter'',
        ''candle'', ''dinner'', ''butter'']"
  by code_simp

theorem start_game_failure_keeps_setup_witness:
  "fst (start_game (\<lambda>_ _. 0) demo_long ''cat'' ''cot'' Challenge 0 (\<lambda>i. i)) = False
   \<and> banned_words demo_long = {} \<and> hints_remaining demo_long = Inf
   \<and> banned_words (fst (snd (start_game (\<lambda>_ _. 0) demo_long ''cat'' ''cot'' Challenge 0
                               (\<lambda>i. i))))
       = {''bandit'', ''castle'', ''winner'', ''better'', ''batter'', ''banana'', ''letter'',
          ''candle'', ''dinner'', ''butter''}
   \<and> hints_remaining (fst (snd (start_game (\<lambda>_ _. 0) demo_long ''cat'' ''cot'' Challenge 0
                                  (\<lambda>i. i))))
       = Fin 1
   \<and> snd (snd (start_game (\<lambda>_ _. 0) demo_long ''cat'' ''cot'' Challenge 0 (\<lambda>i. i))) 0 = 11
   \<and> fst (start_game (\<lambda>_ _. 0) (demo_long\<lparr>banned_words := {''cat''}\<rparr>) ''cat'' ''banana''
            Beginner 0 (\<lambda>i. i)) = False
   \<and> banned_words (fst (snd (start_game (\<lambda>_ _. 0) (demo_long\<lparr>banned_words := {''cat''}\<rparr>)
                               ''cat'' ''banana'' Beginner 0 (\<lambda>i. i))))
       = {}
   \<and> snd (snd (start_game (\<lambda>_ _. 0) (demo_long\<lparr>banned_words := {''cat''}\<rparr>)
                  ''cat'' ''banana'' Beginner 0 (\<lambda>i. i))) 0 = 0"
proof -
  let ?x = "start_game (\<lambda>_ _. 0) demo_long ''cat'' ''cot'' Challenge 0 (\<lambda>i. i)"
  let ?y = "start_game (\<lambda>_ _. 0) (demo_long\<lparr>banned_words := {''cat''}\<rparr>) ''cat'' ''banana''
              Beginner 0 (\<lambda>i. i)"
  let ?pot = "filter (\<lambda>w. length w = 6 + 0 mod 3) (iter (\<lambda>_ _. 0) (word_set demo_long))"
  have f: "fst ?x = False"
    unfolding demo_long_def by code_simp
  then have eq: "?x = (False, fst (snd ?x), snd (snd ?x))"
    by (rule triple_collapse)
  note k = start_game_failure_keeps_setup[OF eq]
  have c: "banned_words (fst (snd ?x))
             = set (fst (sample ?pot (min 10 (length ?pot)) (shift (\<lambda>i. i))))
         \<and> snd (snd ?x) = (shift ^^ Suc (min 10 (length ?pot))) (\<lambda>i. i)"
    using k[THEN conjunct2] unfolding Let_def by simp
  have n: "min 10 (length ?pot) = 10"
    unfolding demo_long_six by simp
  have 1: "banned_words (fst (snd ?x))
      = {''bandit'', ''castle'', ''winner'', ''better'', ''batter'', ''banana'', ''letter'',
         ''candle'', ''dinner'', ''butter''}"
    using c unfolding n unfolding demo_long_six demo_long_sample by simp
  have 2: "hints_remaining (fst (snd ?x)) = Fin (hint_limit (DIFFICULTY_SETTINGS Challenge))"
    using k by blast
  have 3: "banned_words demo_long = {}" "hints_remaining demo_long = Inf"
    by (simp_all add: demo_long_def init_def)
  have 4: "snd (snd ?x) 0 = 11"
    using c unfolding n by (simp add: shift_funpow del: funpow.simps)
  have fy: "fst ?y = False"
    unfolding demo_long_def by code_simp
  then have eqy: "?y = (False, fst (snd ?y), snd (snd ?y))"
    by (rule triple_collapse)
  have 5: "banned_words (fst (snd ?y)) = {} \<and> snd (snd ?y) = (\<lambda>i. i)"
    using start_game_failure_keeps_setup[OF eqy, THEN conjunct2] by simp
  from f 1 2 3 4 fy 5 show ?thesis
    by simp
qed


section \<open>Suggested pairs (C4)\<close>

text \<open>The path lengths a difficulty accepts for a suggested pair.\<close>

definition accepted_length :: "difficulty \<Rightarrow> int \<Rightarrow> bool" where
  "accepted_length d n =
     (case d of
        Beginner \<Rightarrow> 2 \<le> n \<and> n \<le> 4
      | Advanced \<Rightarrow> 4 \<le> n \<and> n \<le> 7
      | Challenge \<Rightarrow> 7 \<le> n)"

lemma suggest_attempt_Some:
  assumes "suggest_attempt ord g d wl vw r = (Some (s, t), r')"
  shows "\<exists>p. a_star_search ord g s t = Some p \<and> accepted_length d (int (length p) - 1)"
  using assms
  by (cases d)
    (auto simp: suggest_attempt_def Let_def accepted_length_def
      split: prod.splits if_splits option.splits)

lemma draws_randint: "snd (randint a b r) = shift r"
  by (simp add: randint_def)

lemma draws_choice: "snd (choice xs r) = shift r"
  by (simp add: choice_def)

lemma suggest_attempt_draws:
  "\<exists>k \<le> 3. snd (suggest_attempt ord g d wl vw r) = (shift ^^ k) r"
proof -
  have 2: "(shift ^^ 2) r = shift (shift r)" and 3: "(shift ^^ 3) r = shift (shift (shift r))"
    by (simp_all add: numeral_2_eq_2 numeral_3_eq_3)
  have "snd (suggest_attempt ord g d wl vw r) = (shift ^^ 2) r
      \<or> snd (suggest_attempt ord g d wl vw r) = (shift ^^ 3) r"
    unfolding 2 3
    by (cases d)
      (simp_all add: suggest_attempt_def Let_def case_prod_unfold draws_randint draws_choice
        split: option.splits)
  then show ?thesis
  proof
    assume "snd (suggest_attempt ord g d wl vw r) = (shift ^^ 2) r"
    then show ?thesis
      by (intro exI[of _ 2]) simp
  next
    assume "snd (suggest_attempt ord g d wl vw r) = (shift ^^ 3) r"
    then show ?thesis
      by (intro exI[of _ 3]) simp
  qed
qed

lemma suggest_attempts_draws:
  "\<exists>k \<le> 3 * n. snd (suggest_attempts n ord g d wl vw r) = (shift ^^ k) r"
proof (induction n arbitrary: r)
  case 0
  then show ?case by simp
next
  case (Suc n)
  obtain res r1 where a: "suggest_attempt ord g d wl vw r = (res, r1)"
    by (cases "suggest_attempt ord g d wl vw r")
  obtain k1 where k1: "k1 \<le> 3" "r1 = (shift ^^ k1) r"
    using suggest_attempt_draws[of ord g d wl vw r] a by auto
  show ?case
  proof (cases res)
    case None
    obtain k where k: "k \<le> 3 * n"
      "snd (suggest_attempts n ord g d wl vw r1) = (shift ^^ k) r1"
      using Suc.IH[of r1] by blast
    have "snd (suggest_attempts (Suc n) ord g d wl vw r) = (shift ^^ (k + k1)) r"
      using a None k(2) k1(2) by (simp add: funpow_add)
    moreover have "k + k1 \<le> 3 * Suc n"
      using k(1) k1(1) by simp
    ultimately show ?thesis
      by blast
  next
    case (Some pair)
    then have "snd (suggest_attempts (Suc n) ord g d wl vw r) = (shift ^^ k1) r"
      using a k1(2) by (cases pair) simp
    moreover have "k1 \<le> 3 * Suc n"
      using k1(1) by simp
    ultimately show ?thesis
      by blast
  qed
qed

lemma suggest_attempts_result:
  "fst (suggest_attempts n ord g d wl vw r) = (None, None)
   \<or> (\<exists>s t p. fst (suggest_attempts n ord g d wl vw r) = (Some s, Some t)
         \<and> a_star_search ord g s t = Some p \<and> accepted_length d (int (length p) - 1))"
proof (induction n arbitrary: r)
  case 0
  then show ?case by simp
next
  case (Suc n)
  obtain res r1 where a: "suggest_attempt ord g d wl vw r = (res, r1)"
    by (cases "suggest_attempt ord g d wl vw r")
  show ?case
  proof (cases res)
    case None
    then show ?thesis
      using a Suc.IH[of r1] by simp
  next
    case (Some pair)
    obtain s t where pair: "pair = (s, t)"
      by (cases pair)
    obtain p where "a_star_search ord g s t = Some p" "accepted_length d (int (length p) - 1)"
      using suggest_attempt_Some[of ord g d wl vw r s t r1] a Some pair by auto
    then show ?thesis
      using a Some pair by simp
  qed
qed

text \<open>The attempts of the loop, numbered from 0: \<open>attempt_rng r k\<close> is the stream of draws
  left by the \<open>k\<close> attempts that start from \<open>r\<close>, and \<open>nth_attempt r k\<close> is the outcome of
  the attempt that follows them.\<close>

definition attempt_rng ::
  "(string list \<Rightarrow> string \<Rightarrow> nat) \<Rightarrow> game \<Rightarrow> difficulty \<Rightarrow> nat \<Rightarrow> string list \<Rightarrow> rng \<Rightarrow> nat
     \<Rightarrow> rng" where
  "attempt_rng ord g d word_length valid_words r k =
     ((\<lambda>r. snd (suggest_attempt ord g d word_length valid_words r)) ^^ k) r"

definition nth_attempt ::
  "(string list \<Rightarrow> string \<Rightarrow> nat) \<Rightarrow> game \<Rightarrow> difficulty \<Rightarrow> nat \<Rightarrow> string list \<Rightarrow> rng \<Rightarrow> nat
     \<Rightarrow> (string \<times> string) option \<times> rng" where
  "nth_attempt ord g d word_length valid_words r k =
     suggest_attempt ord g d word_length valid_words
       (attempt_rng ord g d word_length valid_words r k)"

lemma attempt_rng_0: "attempt_rng ord g d wl vw r 0 = r"
  by (simp add: attempt_rng_def)

lemma attempt_rng_Suc:
  "attempt_rng ord g d wl vw r (Suc k)
     = attempt_rng ord g d wl vw (snd (suggest_attempt ord g d wl vw r)) k"
  unfolding attempt_rng_def funpow_Suc_right by simp

lemma nth_attempt_0: "nth_attempt ord g d wl vw r 0 = suggest_attempt ord g d wl vw r"
  by (simp add: nth_attempt_def attempt_rng_0)

lemma nth_attempt_Suc:
  "nth_attempt ord g d wl vw r (Suc k)
     = nth_attempt ord g d wl vw (snd (suggest_attempt ord g d wl vw r)) k"
  by (simp add: nth_attempt_def attempt_rng_Suc)

lemma suggest_attempts_fail:
  assumes "fst (suggest_attempt ord g d wl vw r) = None"
  shows "suggest_attempts (Suc n) ord g d wl vw r
           = suggest_attempts n ord g d wl vw (snd (suggest_attempt ord g d wl vw r))"
  using assms by (cases "suggest_attempt ord g d wl vw r") simp

lemma suggest_attempts_success:
  assumes "fst (suggest_attempt ord g d wl vw r) = Some (s, t)"
  shows "suggest_attempts (Suc n) ord g d wl vw r
           = ((Some s, Some t), snd (suggest_attempt ord g d wl vw r))"
  using assms by (cases "suggest_attempt ord g d wl vw r") simp

text \<open>When every attempt fails the loop runs to its end.\<close>

lemma suggest_attempts_all_fail:
  "(\<forall>k<n. fst (nth_attempt ord g d wl vw r k) = None)
   \<Longrightarrow> suggest_attempts n ord g d wl vw r = ((None, None), attempt_rng ord g d wl vw r n)"
proof (induction n arbitrary: r)
  case 0
  then show ?case by (simp add: attempt_rng_0)
next
  case (Suc n)
  let ?r = "snd (suggest_attempt ord g d wl vw r)"
  have 0: "fst (suggest_attempt ord g d wl vw r) = None"
    using Suc.prems nth_attempt_0[of ord g d wl vw r] by (metis zero_less_Suc)
  have "\<forall>k<n. fst (nth_attempt ord g d wl vw ?r k) = None"
    using Suc.prems by (simp add: nth_attempt_Suc[symmetric])
  then have "suggest_attempts n ord g d wl vw ?r = ((None, None), attempt_rng ord g d wl vw ?r n)"
    by (rule Suc.IH)
  then show ?case
    by (simp only: suggest_attempts_fail[OF 0] attempt_rng_Suc)
qed

text \<open>The first attempt that succeeds ends the loop, and its pair is returned.\<close>

lemma suggest_attempts_first_success:
  "k < n \<Longrightarrow> fst (nth_attempt ord g d wl vw r k) = Some (s, t)
   \<Longrightarrow> (\<forall>j<k. fst (nth_attempt ord g d wl vw r j) = None)
   \<Longrightarrow> suggest_attempts n ord g d wl vw r
         = ((Some s, Some t), snd (nth_attempt ord g d wl vw r k))"
proof (induction k arbitrary: n r)
  case 0
  then obtain m where n: "n = Suc m"
    by (cases n) auto
  show ?case
    unfolding n nth_attempt_0
    using 0(2) by (intro suggest_attempts_success) (simp add: nth_attempt_0)
next
  case (Suc k)
  then obtain m where n: "n = Suc m" and m: "k < m"
    by (cases n) auto
  let ?r = "snd (suggest_attempt ord g d wl vw r)"
  have 0: "fst (suggest_attempt ord g d wl vw r) = None"
    using Suc.prems(3) nth_attempt_0[of ord g d wl vw r] by (metis zero_less_Suc)
  have s: "fst (nth_attempt ord g d wl vw ?r k) = Some (s, t)"
    using Suc.prems(2) by (simp add: nth_attempt_Suc)
  have "\<forall>j<k. fst (nth_attempt ord g d wl vw ?r j) = None"
    using Suc.prems(3) by (simp add: nth_attempt_Suc[symmetric])
  with m s have "suggest_attempts m ord g d wl vw ?r
         = ((Some s, Some t), snd (nth_attempt ord g d wl vw ?r k))"
    by (rule Suc.IH)
  then show ?case
    unfolding n by (simp only: suggest_attempts_fail[OF 0] nth_attempt_Suc)
qed

lemma suggest_attempts_none_iff:
  "fst (suggest_attempts n ord g d wl vw r) = (None, None)
   \<longleftrightarrow> (\<forall>k<n. fst (nth_attempt ord g d wl vw r k) = None)"
proof
  assume "\<forall>k<n. fst (nth_attempt ord g d wl vw r k) = None"
  then show "fst (suggest_attempts n ord g d wl vw r) = (None, None)"
    using suggest_attempts_all_fail[of n ord g d wl vw r] by simp
next
  assume none: "fst (suggest_attempts n ord g d wl vw r) = (None, None)"
  show "\<forall>k<n. fst (nth_attempt ord g d wl vw r k) = None"
  proof (rule ccontr)
    assume "\<not> (\<forall>k<n. fst (nth_attempt ord g d wl vw r k) = None)"
    then have ex: "\<exists>k. k < n \<and> fst (nth_attempt ord g d wl vw r k) \<noteq> None"
      by blast
    define k where "k = (LEAST k. k < n \<and> fst (nth_attempt ord g d wl vw r k) \<noteq> None)"
    have k: "k < n" "fst (nth_attempt ord g d wl vw r k) \<noteq> None"
      using LeastI_ex[OF ex] by (simp_all add: k_def)
    have least: "fst (nth_attempt ord g d wl vw r j) = None" if "j < k" for j
    proof (rule ccontr)
      assume "fst (nth_attempt ord g d wl vw r j) \<noteq> None"
      then have "j < n \<and> fst (nth_attempt ord g d wl vw r j) \<noteq> None"
        using that k(1) by simp
      then have "k \<le> j"
        unfolding k_def by (rule Least_le)
      with that show False
        by simp
    qed
    obtain s t where st: "fst (nth_attempt ord g d wl vw r k) = Some (s, t)"
      using k(2) by (cases "fst (nth_attempt ord g d wl vw r k)") auto
    have "suggest_attempts n ord g d wl vw r
         = ((Some s, Some t), snd (nth_attempt ord g d wl vw r k))"
      using k(1) st least by (intro suggest_attempts_first_success) simp_all
    with none show False
      by simp
  qed
qed

text \<open>
  C4: \<open>suggest_word_pair\<close> returns either \<open>(None, None)\<close> or a pair of words between
  which A* finds a path whose number of edges is in [2,4] for beginner, in [4,7] for
  advanced and at least 7 for challenge. With fewer than two candidate words of the
  drawn length it returns \<open>(None, None)\<close> at once. Otherwise it makes up to 50
  attempts: the result is \<open>(None, None)\<close> exactly when each of the 50 attempts fails,
  the draws are then those left by the 50 attempts, and when an attempt among the 50
  succeeds after failures only, its pair is the result. In all, at most three draws are
  consumed per attempt, after the draw of the word length.
\<close>

theorem suggest_word_pair_verified:
  "(let word_length = (if d = Beginner then 3 + r 0 mod 2
                       else if d = Advanced then 5 + r 0 mod 2 else 6 + r 0 mod 3);
        valid_words = filter (\<lambda>word. length word = word_length \<and> word \<notin> banned_words g
                                 \<and> (\<forall>c \<in> set word. c \<in> set ascii_lowercase))
                        (iter ord (word_set g));
        attempt = nth_attempt ord g d word_length valid_words (shift r);
        result = suggest_word_pair ord g d r
    in (fst result = (None, None)
        \<or> (\<exists>s t p. fst result = (Some s, Some t)
              \<and> a_star_search ord g s t = Some p \<and> accepted_length d (int (length p) - 1)))
     \<and> (length valid_words < 2 \<longrightarrow> result = ((None, None), shift r))
     \<and> (2 \<le> length valid_words \<longrightarrow>
          (fst result = (None, None) \<longleftrightarrow> (\<forall>k<50. fst (attempt k) = None))
        \<and> ((\<forall>k<50. fst (attempt k) = None)
             \<longrightarrow> snd result = attempt_rng ord g d word_length valid_words (shift r) 50)
        \<and> (\<forall>k<50. \<forall>s t. fst (attempt k) = Some (s, t) \<and> (\<forall>j<k. fst (attempt j) = None)
             \<longrightarrow> result = ((Some s, Some t), snd (attempt k))))
     \<and> (\<exists>k \<le> 1 + 3 * 50. snd result = (shift ^^ k) r))"
proof -
  define wl where "wl = (if d = Beginner then 3 + r 0 mod 2
                       else if d = Advanced then 5 + r 0 mod 2 else 6 + r 0 mod 3)"
  define vw where "vw = filter (\<lambda>word. length word = wl \<and> word \<notin> banned_words g
                                   \<and> (\<forall>c \<in> set word. c \<in> set ascii_lowercase))
                          (iter ord (word_set g))"
  have ri: "randint 3 4 r = (3 + r 0 mod 2, shift r)" "randint 5 6 r = (5 + r 0 mod 2, shift r)"
    "randint 6 8 r = (6 + r 0 mod 3, shift r)"
    unfolding randint_def by (simp_all add: numeral_2_eq_2)
  have u: "suggest_word_pair ord g d r =
      (if length vw < 2 then ((None, None), shift r)
       else suggest_attempts 50 ord g d wl vw (shift r))"
    by (cases d) (simp_all add: suggest_word_pair_def Let_def wl_def vw_def ri)
  have 1: "fst (suggest_word_pair ord g d r) = (None, None)
        \<or> (\<exists>s t p. fst (suggest_word_pair ord g d r) = (Some s, Some t)
              \<and> a_star_search ord g s t = Some p \<and> accepted_length d (int (length p) - 1))"
    using suggest_attempts_result[of 50 ord g d wl vw "shift r"] by (simp add: u)
  have 2: "length vw < 2 \<longrightarrow> suggest_word_pair ord g d r = ((None, None), shift r)"
    by (simp add: u)
  have 3: "fst (suggest_word_pair ord g d r) = (None, None)
           \<longleftrightarrow> (\<forall>k<50. fst (nth_attempt ord g d wl vw (shift r) k) = None)"
    if "2 \<le> length vw"
    using that suggest_attempts_none_iff[of 50 ord g d wl vw "shift r"] by (simp add: u)
  have 4: "snd (suggest_word_pair ord g d r) = attempt_rng ord g d wl vw (shift r) 50"
    if "2 \<le> length vw" "\<forall>k<50. fst (nth_attempt ord g d wl vw (shift r) k) = None"
    using that(1) suggest_attempts_all_fail[OF that(2)] by (simp add: u)
  have 5: "suggest_word_pair ord g d r = ((Some s, Some t), snd (nth_attempt ord g d wl vw (shift r) k))"
    if "2 \<le> length vw" "k < 50" "fst (nth_attempt ord g d wl vw (shift r) k) = Some (s, t)"
      "\<forall>j<k. fst (nth_attempt ord g d wl vw (shift r) j) = None" for k s t
    using that(1) suggest_attempts_first_success[OF that(2,3,4)] by (simp add: u)
  have 6: "\<exists>k \<le> 1 + 3 * 50. snd (suggest_word_pair ord g d r) = (shift ^^ k) r"
  proof (cases "length vw < 2")
    case True
    have "snd (suggest_word_pair ord g d r) = (shift ^^ 1) r"
      using True u by simp
    then show ?thesis
      by (intro exI[of _ 1]) simp
  next
    case False
    obtain k where k: "k \<le> 3 * 50"
      "snd (suggest_attempts 50 ord g d wl vw (shift r)) = (shift ^^ k) (shift r)"
      using suggest_attempts_draws[of 50 ord g d wl vw "shift r"] by blast
    have "snd (suggest_word_pair ord g d r) = (shift ^^ (Suc k)) r"
      using False u k(2) by (simp add: funpow_swap1)
    moreover have "Suc k \<le> 1 + 3 * 50"
      using k(1) by simp
    ultimately show ?thesis
      by blast
  qed
  show ?thesis
    unfolding Let_def wl_def[symmetric] vw_def[symmetric]
    using 1 2 3 4 5 6 by blast
qed

text \<open>Draws for the example: the word length 3, then a first attempt from \<open>cat\<close> at
  distance 4, where the expansion runs out of words, then a second attempt from \<open>cat\<close>
  at distance 2, which finds \<open>dot\<close>.\<close>

definition retry_draws :: rng where
  "retry_draws i = (if i = 2 then 2 else 0)"

lemma retry_length: "3 + retry_draws 0 mod 2 = 3"
  by (simp add: retry_draws_def)

lemma demo_valid_words:
  "filter (\<lambda>word. length word = 3 \<and> word \<notin> banned_words demo
                     \<and> (\<forall>c \<in> set word. c \<in> set ascii_lowercase))
     (iter (\<lambda>_ _. 0) (word_set demo))
   = [''cat'', ''cot'', ''cog'', ''dog'', ''dot'', ''cag'']"
  unfolding demo_def by code_simp

lemma demo_attempt_0:
  "fst (nth_attempt (\<lambda>_ _. 0) demo Beginner 3 [''cat'', ''cot'', ''cog'', ''dog'', ''dot'', ''cag'']
          (shift retry_draws) 0) = None"
  unfolding demo_def by code_simp

lemma demo_attempt_1:
  "fst (nth_attempt (\<lambda>_ _. 0) demo Beginner 3 [''cat'', ''cot'', ''cog'', ''dog'', ''dot'', ''cag'']
          (shift retry_draws) (Suc 0)) = Some (''cat'', ''dot'')"
  unfolding demo_def by code_simp

theorem suggest_word_pair_verified_witness:
  "fst (nth_attempt (\<lambda>_ _. 0) demo Beginner 3 [''cat'', ''cot'', ''cog'', ''dog'', ''dot'', ''cag'']
          (shift retry_draws) 0) = None
   \<and> fst (nth_attempt (\<lambda>_ _. 0) demo Beginner 3
            [''cat'', ''cot'', ''cog'', ''dog'', ''dot'', ''cag''] (shift retry_draws) (Suc 0))
       = Some (''cat'', ''dot'')
   \<and> fst (suggest_word_pair (\<lambda>_ _. 0) demo Beginner retry_draws) = (Some ''cat'', Some ''dot'')
   \<and> (\<exists>p. a_star_search (\<lambda>_ _. 0) demo ''cat'' ''dot'' = Some p
         \<and> accepted_length Beginner (int (length p) - 1))"
proof -
  let ?vw = "[''cat'', ''cot'', ''cog'', ''dog'', ''dot'', ''cag'']"
  let ?att = "nth_attempt (\<lambda>_ _. 0) demo Beginner 3 ?vw (shift retry_draws)"
  let ?res = "suggest_word_pair (\<lambda>_ _. 0) demo Beginner retry_draws"
  note k = suggest_word_pair_verified[where d = Beginner and r = retry_draws and g = demo
      and ord = "\<lambda>_ _. 0"]
  have c: "(fst ?res = (None, None)
        \<or> (\<exists>s t p. fst ?res = (Some s, Some t)
              \<and> a_star_search (\<lambda>_ _. 0) demo s t = Some p
              \<and> accepted_length Beginner (int (length p) - 1)))
     \<and> (2 \<le> length ?vw \<longrightarrow>
          (\<forall>k<50. \<forall>s t. fst (?att k) = Some (s, t) \<and> (\<forall>j<k. fst (?att j) = None)
             \<longrightarrow> ?res = ((Some s, Some t), snd (?att k))))"
    using k by (simp only: Let_def simp_thms if_True retry_length demo_valid_words) blast
  have "\<forall>j<Suc 0. fst (?att j) = None"
    using demo_attempt_0 by simp
  then have r: "?res = ((Some ''cat'', Some ''dot''), snd (?att (Suc 0)))"
    using c demo_attempt_1 by simp
  then have "\<exists>p. a_star_search (\<lambda>_ _. 0) demo ''cat'' ''dot'' = Some p
         \<and> accepted_length Beginner (int (length p) - 1)"
    using c by simp
  with r demo_attempt_0 demo_attempt_1 show ?thesis
    by simp
qed

end
